theory Spec2Isabelle
  imports Complex_Main "HOL-Library.Sublist"
begin

section \<open>Python strings\<close>

text \<open>
  A Python \<open>str\<close> is modelled as a \<open>string\<close>; one \<open>char\<close> stands for one code point
  below 256 (the Latin-1 range), so \<open>length\<close> is Python's \<open>len\<close> on such strings.
  The character classes are those of CPython on that range:
  \<^item> \<open>str.isspace\<close>: U+0009..U+000D, U+001C..U+001F, U+0020, U+0085, U+00A0;
  \<^item> \<open>str.isdigit\<close>: \<open>0\<close>..\<open>9\<close> and the superscript digits U+00B2, U+00B3, U+00B9;
  \<^item> regular expression \<open>\d\<close>: \<open>0\<close>..\<open>9\<close> only;
  \<^item> regular expression \<open>\w\<close>: \<open>str.isalnum\<close> or the underscore.
\<close>

definition newline :: char where
  "newline = CHR 0x0A"

definition py_isspace :: "char \<Rightarrow> bool" where
  "py_isspace c =
     (let n = (of_char c :: nat)
      in (9 \<le> n \<and> n \<le> 13) \<or> (28 \<le> n \<and> n \<le> 32) \<or> n = 133 \<or> n = 160)"

definition re_digit :: "char \<Rightarrow> bool" where
  "re_digit c = (let n = (of_char c :: nat) in 48 \<le> n \<and> n \<le> 57)"

definition py_isdigit :: "char \<Rightarrow> bool" where
  "py_isdigit c =
     (let n = (of_char c :: nat)
      in (48 \<le> n \<and> n \<le> 57) \<or> n = 178 \<or> n = 179 \<or> n = 185)"

definition re_word_char :: "char \<Rightarrow> bool" where
  "re_word_char c =
     (let n = (of_char c :: nat)
      in (48 \<le> n \<and> n \<le> 57) \<or> (65 \<le> n \<and> n \<le> 90) \<or> n = 95 \<or> (97 \<le> n \<and> n \<le> 122)
         \<or> n = 170 \<or> n = 178 \<or> n = 179 \<or> n = 181 \<or> n = 185 \<or> n = 186
         \<or> (188 \<le> n \<and> n \<le> 190) \<or> (192 \<le> n \<and> n \<le> 214)
         \<or> (216 \<le> n \<and> n \<le> 246) \<or> (248 \<le> n \<and> n \<le> 255))"

text \<open>\<open>s.lstrip()\<close>, \<open>s.rstrip()\<close> and \<open>s.strip()\<close> without argument.\<close>

definition lstrip :: "string \<Rightarrow> string" where
  "lstrip s = dropWhile py_isspace s"

definition rstrip :: "string \<Rightarrow> string" where
  "rstrip s = rev (dropWhile py_isspace (rev s))"

definition strip :: "string \<Rightarrow> string" where
  "strip s = rstrip (lstrip s)"

text \<open>\<open>s.startswith(p)\<close> and \<open>sub in s\<close>.\<close>

definition startswith :: "string \<Rightarrow> string \<Rightarrow> bool" where
  "startswith s p = (take (length p) s = p)"

fun contains :: "string \<Rightarrow> string \<Rightarrow> bool" where
  "contains [] sub = (sub = [])"
| "contains (c # cs) sub = (startswith (c # cs) sub \<or> contains cs sub)"

text \<open>
  \<open>s.split("\n")\<close>: never empty, \<open>"".split("\n") = [""]\<close>. A character other than the
  newline goes in front of the first line of what follows (the split of the rest is
  never empty, so the last case does not arise).
\<close>

fun split_nl :: "string \<Rightarrow> string list" where
  "split_nl [] = [[]]"
| "split_nl (c # cs) =
     (if c = newline then [] # split_nl cs
      else (case split_nl cs of
              l # ls \<Rightarrow> (c # l) # ls
            | [] \<Rightarrow> [[c]]))"

text \<open>\<open>"\n".join(xs)\<close>.\<close>

fun join_nl :: "string list \<Rightarrow> string" where
  "join_nl [] = []"
| "join_nl [x] = x"
| "join_nl (x # y # ys) = x @ newline # join_nl (y # ys)"

section \<open>Errors\<close>

text \<open>
  The exceptions the modelled functions raise. \<open>GenericException\<close> is a bare
  \<open>Exception\<close>; \<open>AssertionError\<close>, \<open>ValueError\<close>, \<open>KeyError\<close> and \<open>IndexError\<close> are
  Python's own.
\<close>

datatype error =
    NoDocumentsRetrieved
  | NoDocumentsAfterWeakLLMFiltering
  | InvalidDocEvaluationByWeakLLM
  | AssertionError
  | ValueError
  | KeyError
  | IndexError
  | GenericException

section \<open>utils/tasks/query.py\<close>

subsection \<open>check_intermediate_answer\<close>

text \<open>
  \<open>re.search(r"\bIRRELEVANT\b", ans)\<close>: the search tries every start position from the
  left. Both ends of the literal are word characters, so \<open>\b\<close> before it holds when
  the previous character is absent or not a word character, and \<open>\b\<close> after it when
  the next character is absent or not a word character. \<open>prev\<close> is the character
  before the current position.
\<close>

definition irrelevant_at :: "char option \<Rightarrow> string \<Rightarrow> bool" where
  "irrelevant_at prev s =
     ((case prev of None \<Rightarrow> True | Some p \<Rightarrow> \<not> re_word_char p)
      \<and> startswith s ''IRRELEVANT''
      \<and> (case drop 10 s of [] \<Rightarrow> True | n # _ \<Rightarrow> \<not> re_word_char n))"

fun search_from :: "char option \<Rightarrow> string \<Rightarrow> bool" where
  "search_from prev [] = False"
| "search_from prev (c # cs) = (irrelevant_at prev (c # cs) \<or> search_from (Some c) cs)"

definition re_search_IRRELEVANT :: "string \<Rightarrow> bool" where
  "re_search_IRRELEVANT ans = search_from None ans"

definition check_intermediate_answer :: "string \<Rightarrow> bool" where
  "check_intermediate_answer ans =
     (if (\<not> re_search_IRRELEVANT ans \<and> length ans < length ''IRRELEVANT'' * 2)
         \<or> length ans \<ge> length ''IRRELEVANT'' * 2
      then True else False)"

text \<open>
  The wording of the specification, for comparison with the search above: the text
  contains the standalone word when it splits into a part before, the literal, and a
  part after, neither neighbour of the literal being a word character.
\<close>

definition contains_standalone_IRRELEVANT :: "string \<Rightarrow> bool" where
  "contains_standalone_IRRELEVANT a =
     (\<exists>pre post. a = pre @ ''IRRELEVANT'' @ post
        \<and> (pre = [] \<or> \<not> re_word_char (last pre))
        \<and> (post = [] \<or> \<not> re_word_char (hd post)))"

subsection \<open>parse_eval_output\<close>

definition digits_of :: "string \<Rightarrow> string" where
  "digits_of output = filter py_isdigit output"

definition parse_eval_output :: "string \<Rightarrow> error + string" where
  "parse_eval_output output =
     (if strip output = [] then Inl InvalidDocEvaluationByWeakLLM
      else if CHR ''-'' \<in> set output then Inl InvalidDocEvaluationByWeakLLM
      else let digits = digits_of output in
        if digits = [] then Inl InvalidDocEvaluationByWeakLLM
        else if length digits = 1 then
          (if hd digits = CHR ''0'' then Inr ''0''
           else if hd digits = CHR ''1'' then Inr ''1''
           else Inl InvalidDocEvaluationByWeakLLM)
        else if CHR ''0'' \<in> set digits \<and> CHR ''1'' \<in> set digits
          then Inl InvalidDocEvaluationByWeakLLM
        else if CHR ''0'' \<notin> set digits \<and> CHR ''1'' \<notin> set digits
          then Inl InvalidDocEvaluationByWeakLLM
        else Inl GenericException)"

subsection \<open>refilter_docs\<close>

text \<open>
  A langchain \<open>Document\<close>: its text and its metadata dictionary, whose values (the
  hash and the path are the ones read here) are strings. \<open>metadata_id\<close> is the identity
  of the dictionary object, what \<open>id(d.metadata)\<close> returns.
\<close>

record document =
  page_content :: string
  metadata :: "string \<rightharpoonup> string"
  metadata_id :: nat

text \<open>
  One entry of \<open>evaluations\<close>: the list of votes of a document, or a value that is not
  a list, which the loop wraps into a one-element list.
\<close>

datatype evaluation = Votes "string list" | Single string

fun votes_of :: "evaluation \<Rightarrow> string list" where
  "votes_of (Votes vs) = vs"
| "votes_of (Single v) = [v]"

text \<open>What the functions print through \<open>red\<close>, in order.\<close>

datatype log_msg =
    EvalsContainedStrings "string list"
  | FoundDuplicateHashes
  | RemovedDocs nat nat
  | RemovedPaths nat nat
  | CostOverLimitNotCrashing

text \<open>\<open>str.isdigit\<close> on a whole string: not empty, and every character is a digit.\<close>

definition py_str_isdigit :: "string \<Rightarrow> bool" where
  "py_str_isdigit s = (s \<noteq> [] \<and> list_all py_isdigit s)"

text \<open>
  \<open>int(s)\<close> as it is called here, on a string that has passed \<open>str.isdigit\<close>: the
  decimal value when every character is one of \<open>0\<close>..\<open>9\<close> and there are no more of them
  than the interpreter converts, and \<open>ValueError\<close> otherwise. The superscript digits pass
  \<open>str.isdigit\<close> and are no decimal literal. The limit on the number of digits, leading
  zeros included, is \<open>sys.get_int_max_str_digits()\<close>: 4300 unless it is reconfigured, and
  the repository does not reconfigure it.
\<close>

definition int_max_str_digits :: nat where
  "int_max_str_digits = 4300"

definition decimal_literal :: "string \<Rightarrow> bool" where
  "decimal_literal s = (s \<noteq> [] \<and> list_all re_digit s \<and> length s \<le> int_max_str_digits)"

definition decimal_value :: "string \<Rightarrow> int" where
  "decimal_value s = foldl (\<lambda>acc c. 10 * acc + (int (of_char c) - 48)) 0 s"

definition py_int :: "string \<Rightarrow> error + int" where
  "py_int s = (if decimal_literal s then Inr (decimal_value s) else Inl ValueError)"

text \<open>\<open>list(map(int, evals))\<close>: the first failing conversion raises.\<close>

fun map_int :: "string list \<Rightarrow> error + int list" where
  "map_int [] = Inr []"
| "map_int (v # vs) =
     (case py_int v of
        Inl e \<Rightarrow> Inl e
      | Inr n \<Rightarrow> (case map_int vs of Inl e \<Rightarrow> Inl e | Inr ns \<Rightarrow> Inr (n # ns)))"

text \<open>
  The loop \<open>for ie, evals in enumerate(evaluations)\<close>; \<open>filtered_docs\<close> and the printed
  warnings are the state. \<open>unfiltered_docs[ie]\<close> raises \<open>IndexError\<close> out of range.
\<close>

fun filter_loop ::
  "document list \<Rightarrow> nat \<Rightarrow> evaluation list \<Rightarrow> document list \<Rightarrow> log_msg list
     \<Rightarrow> error + (document list \<times> log_msg list)" where
  "filter_loop unfiltered_docs ie [] filtered_docs logs = Inr (filtered_docs, logs)"
| "filter_loop unfiltered_docs ie (ev # rest) filtered_docs logs =
     (let evals = votes_of ev in
      if list_all py_str_isdigit evals then
        (case map_int evals of
           Inl e \<Rightarrow> Inl e
         | Inr ints \<Rightarrow>
             if sum_list ints \<noteq> 0 then
               (if ie < length unfiltered_docs
                then filter_loop unfiltered_docs (Suc ie) rest
                       (filtered_docs @ [unfiltered_docs ! ie]) logs
                else Inl IndexError)
             else filter_loop unfiltered_docs (Suc ie) rest filtered_docs logs)
      else
        (if ie < length unfiltered_docs
         then filter_loop unfiltered_docs (Suc ie) rest
                (filtered_docs @ [unfiltered_docs ! ie])
                (logs @ [EvalsContainedStrings evals])
         else Inl IndexError))"

text \<open>
  \<open>refilter_docs\<close> on the two entries of its \<open>inputs\<close> dictionary; both are lists by
  their types. The result is the returned list together with the warnings printed.
\<close>

definition refilter_docs ::
  "document list \<Rightarrow> evaluation list \<Rightarrow> error + (document list \<times> log_msg list)" where
  "refilter_docs unfiltered_docs evaluations =
     (if length unfiltered_docs \<noteq> length evaluations then Inl AssertionError
      else if unfiltered_docs = [] then Inl NoDocumentsRetrieved
      else
        (case filter_loop unfiltered_docs 0 evaluations [] [] of
           Inl e \<Rightarrow> Inl e
         | Inr (filtered_docs, logs) \<Rightarrow>
             if filtered_docs = [] then Inl NoDocumentsAfterWeakLLMFiltering
             else Inr (filtered_docs, logs)))"

text \<open>
  Vocabulary for the statements about the votes of one document: every vote is a
  decimal literal that \<open>int\<close> converts (a non-empty string of at most 4300 characters
  \<open>0\<close>..\<open>9\<close>); the integer sum of such votes; some vote fails \<open>str.isdigit\<close>.
\<close>

definition all_decimal :: "evaluation \<Rightarrow> bool" where
  "all_decimal ev = list_all decimal_literal (votes_of ev)"

definition vote_sum :: "evaluation \<Rightarrow> int" where
  "vote_sum ev = sum_list (map decimal_value (votes_of ev))"

definition has_non_digit_vote :: "evaluation \<Rightarrow> bool" where
  "has_non_digit_vote ev = (\<not> list_all py_str_isdigit (votes_of ev))"

definition kept_by_votes :: "evaluation \<Rightarrow> bool" where
  "kept_by_votes ev = (has_non_digit_vote ev \<or> vote_sum ev \<noteq> 0)"

fun warnings_of :: "evaluation list \<Rightarrow> log_msg list" where
  "warnings_of [] = []"
| "warnings_of (ev # evs) =
     (if has_non_digit_vote ev then EvalsContainedStrings (votes_of ev) # warnings_of evs
      else warnings_of evs)"

text \<open>The documents kept, in input order, when no conversion raises.\<close>

definition kept_docs :: "document list \<Rightarrow> evaluation list \<Rightarrow> document list" where
  "kept_docs docs evs = map fst (filter (\<lambda>(d, ev). kept_by_votes ev) (zip docs evs))"

text \<open>
  Three documents for the concrete runs below: \<open>doc_a\<close> and \<open>doc_c\<close> have the same hash
  and different paths, \<open>doc_a\<close> and \<open>doc_b\<close> the same path and different hashes.
\<close>

definition doc_a :: document where
  "doc_a = \<lparr>page_content = ''x'', metadata = [''hash'' \<mapsto> ''h1'', ''path'' \<mapsto> ''p''], metadata_id = 1\<rparr>"

definition doc_b :: document where
  "doc_b = \<lparr>page_content = ''y'', metadata = [''hash'' \<mapsto> ''h2'', ''path'' \<mapsto> ''p''], metadata_id = 2\<rparr>"

definition doc_c :: document where
  "doc_c = \<lparr>page_content = ''x'', metadata = [''hash'' \<mapsto> ''h1'', ''path'' \<mapsto> ''q''], metadata_id = 3\<rparr>"

section \<open>DocToolsLLM.py\<close>

subsection \<open>Deduplication of the loaded documents\<close>

text \<open>
  The list comprehension \<open>[d.metadata[k] for d in docs]\<close>; a missing key raises
  \<open>KeyError\<close>.
\<close>

fun metadata_values :: "string \<Rightarrow> document list \<Rightarrow> error + string list" where
  "metadata_values k [] = Inr []"
| "metadata_values k (d # ds) =
     (case metadata d k of
        None \<Rightarrow> Inl KeyError
      | Some v \<Rightarrow> (case metadata_values k ds of Inl e \<Rightarrow> Inl e | Inr vs \<Rightarrow> Inr (v # vs)))"

text \<open>\<open>counter = {h: hashes.count(h) for h in uniq_hashes}\<close>.\<close>

definition count_hashes :: "string list \<Rightarrow> (string \<rightharpoonup> int)" where
  "count_hashes hashes = (\<lambda>h. if h \<in> set hashes then Some (int (count_list hashes h)) else None)"

text \<open>
  The loop \<open>for i, doc in enumerate(self.loaded_docs)\<close>. It overwrites the slot of a
  removed document with \<open>None\<close>; the result is the list of slots and \<open>removed_docs\<close>.
  The \<open>assert counter[h] > 0\<close> closes every iteration.
\<close>

fun dedup_loop ::
  "document list \<Rightarrow> (string \<rightharpoonup> int) \<Rightarrow> document list
     \<Rightarrow> error + (document option list \<times> document list)" where
  "dedup_loop [] counter removed_docs = Inr ([], removed_docs)"
| "dedup_loop (doc # rest) counter removed_docs =
     (case metadata doc ''hash'' of
        None \<Rightarrow> Inl KeyError
      | Some h \<Rightarrow>
          (case counter h of
             None \<Rightarrow> Inl KeyError
           | Some n \<Rightarrow>
               if n > 1 then
                 (if n - 1 > 0 then
                    (case dedup_loop rest (counter(h \<mapsto> n - 1)) (removed_docs @ [doc]) of
                       Inl e \<Rightarrow> Inl e
                     | Inr (slots, removed) \<Rightarrow> Inr (None # slots, removed))
                  else Inl AssertionError)
               else
                 (if n > 0 then
                    (case dedup_loop rest counter removed_docs of
                       Inl e \<Rightarrow> Inl e
                     | Inr (slots, removed) \<Rightarrow> Inr (Some doc # slots, removed))
                  else Inl AssertionError)))"

text \<open>\<open>[d for d in self.loaded_docs if d is not None]\<close>.\<close>

fun drop_none :: "'a option list \<Rightarrow> 'a list" where
  "drop_none [] = []"
| "drop_none (None # xs) = drop_none xs"
| "drop_none (Some x # xs) = x # drop_none xs"

text \<open>
  The block of \<open>__init__\<close> that follows \<open>batch_load_doc\<close>: from the loaded documents to
  the deduplicated \<open>self.loaded_docs\<close> and the messages printed. \<open>removed_paths\<close> is
  created empty and nothing is ever appended to it.
\<close>

definition deduplicate_loaded_docs ::
  "document list \<Rightarrow> error + (document list \<times> log_msg list)" where
  "deduplicate_loaded_docs loaded_docs =
     (if length loaded_docs > 1 then
        (let ids = map metadata_id loaded_docs in
         if length ids \<noteq> length (remdups ids) then Inl AssertionError
         else
           (case metadata_values ''hash'' loaded_docs of
              Inl e \<Rightarrow> Inl e
            | Inr hashes \<Rightarrow>
                (let uniq_hashes = remdups hashes;
                     removed_paths = ([] :: string list);
                     counter = count_hashes hashes
                 in if length hashes \<noteq> length uniq_hashes then
                      (case dedup_loop loaded_docs counter [] of
                         Inl e \<Rightarrow> Inl e
                       | Inr (slots, removed_docs) \<Rightarrow>
                           (let kept = drop_none slots in
                            case metadata_values ''path'' kept of
                              Inl e \<Rightarrow> Inl e
                            | Inr present_path \<Rightarrow>
                                (let intersect = filter (\<lambda>p. p \<in> set present_path)
                                                   (remdups removed_paths)
                                 in if intersect \<noteq> [] then Inl GenericException
                                    else Inr (kept,
                                           [FoundDuplicateHashes,
                                            RemovedDocs (length removed_docs) (length hashes),
                                            RemovedPaths (length removed_paths) (length hashes)]))))
                    else Inr (loaded_docs, []))))
      else Inr (loaded_docs, []))"

text \<open>
  Vocabulary for the statements: the fingerprint of a document, and the documents of a
  list that have no later document with the same fingerprint.
\<close>

definition fingerprint :: "document \<Rightarrow> string" where
  "fingerprint d = the (metadata d ''hash'')"

fun last_occurrences :: "document list \<Rightarrow> document list" where
  "last_occurrences [] = []"
| "last_occurrences (d # ds) =
     (if fingerprint d \<in> fingerprint ` set ds then last_occurrences ds
      else d # last_occurrences ds)"

fun earlier_occurrences :: "document list \<Rightarrow> document list" where
  "earlier_occurrences [] = []"
| "earlier_occurrences (d # ds) =
     (if fingerprint d \<in> fingerprint ` set ds then d # earlier_occurrences ds
      else earlier_occurrences ds)"

subsection \<open>The budget check of the summary task\<close>

text \<open>Python truthiness of an optional string: \<open>None\<close> and \<open>""\<close> are false.\<close>

definition truthy :: "string option \<Rightarrow> bool" where
  "truthy v = (case v of None \<Rightarrow> False | Some s \<Rightarrow> s \<noteq> [])"

text \<open>
  The end of the estimate in \<open>_summary_task\<close>: \<open>estimate_dol\<close> is the estimate computed
  just before, \<open>api_base\<close> is \<open>self.llms_api_bases["model"]\<close>. The result is the
  exception raised or the messages printed before the task goes on.
\<close>

definition summary_task_budget_check ::
  "real \<Rightarrow> real \<Rightarrow> string option \<Rightarrow> error + log_msg list" where
  "summary_task_budget_check estimate_dol dollar_limit api_base =
     (if estimate_dol > dollar_limit then
        (if truthy api_base then Inl GenericException
         else Inr [CostOverLimitNotCrashing])
      else Inr [])"

subsection \<open>The hierarchical reduction of the intermediate answers\<close>

text \<open>
  The model call behind \<open>combine_answers\<close> is outside the repository. It is a parameter
  here: from the state of the outside world, the question and the joined answers to the
  answer and the next state, so that two calls on one prompt may answer differently.
\<close>

type_synonym 'w llm = "'w \<Rightarrow> string \<Rightarrow> string \<Rightarrow> string \<times> 'w"

text \<open>
  One invocation of \<open>final_answer_chain\<close> is recorded with its arguments, the question
  and the list of intermediate answers it was given.
\<close>

type_synonym call = "string \<times> string list"

definition batch_size :: nat where
  "batch_size = 5"

text \<open>
  \<open>final_answer_chain\<close>: the answers deemed irrelevant are removed, the others joined with
  newlines, and the model is called once.
\<close>

definition final_answer_chain ::
  "'w llm \<Rightarrow> string \<Rightarrow> string list \<Rightarrow> 'w \<times> call list \<Rightarrow> string \<times> ('w \<times> call list)" where
  "final_answer_chain llm question_to_answer intermediate_answers st =
     (case st of (world, calls) \<Rightarrow>
        (case llm world question_to_answer
                (join_nl (filter check_intermediate_answer intermediate_answers)) of
           (final_answer, world') \<Rightarrow>
             (final_answer, (world', calls @ [(question_to_answer, intermediate_answers)]))))"

text \<open>The body of \<open>for ia in intermediate_answers\<close>, on the list of batches.\<close>

definition add_to_batches :: "string list list \<Rightarrow> string \<Rightarrow> string list list" where
  "add_to_batches batches ia =
     (if \<not> check_intermediate_answer ia then batches
      else
        (let batches1 = (if length (last batches) \<ge> batch_size then batches @ [[]] else batches)
         in if length (last batches1) < batch_size
            then butlast batches1 @ [last batches1 @ [ia]]
            else batches1))"

definition make_batches :: "string list \<Rightarrow> string list list" where
  "make_batches intermediate_answers = foldl add_to_batches [[]] intermediate_answers"

text \<open>
  \<open>final_answer_chain.batch(batch_args)\<close>: one invocation per batch, the answers in the
  order of the batches. The invocations are recorded in that order.
\<close>

fun chain_batch ::
  "'w llm \<Rightarrow> string \<Rightarrow> string list list \<Rightarrow> 'w \<times> call list
     \<Rightarrow> string list \<times> ('w \<times> call list)" where
  "chain_batch llm q [] st = ([], st)"
| "chain_batch llm q (b # bs) st =
     (case final_answer_chain llm q b st of
        (a, st1) \<Rightarrow> (case chain_batch llm q bs st1 of (as, st2) \<Rightarrow> (a # as, st2)))"

text \<open>\<open>while len(intermediate_answers) > batch_size\<close>.\<close>

function reduce_loop ::
  "'w llm \<Rightarrow> string \<Rightarrow> string list \<Rightarrow> 'w \<times> call list \<Rightarrow> string list \<times> ('w \<times> call list)" where
  "reduce_loop llm q intermediate_answers st =
     (if length intermediate_answers > batch_size then
        (case chain_batch llm q (make_batches intermediate_answers) st of
           (answers, st') \<Rightarrow> reduce_loop llm q answers st')
      else (intermediate_answers, st))"
  by pat_completeness auto
termination
proof (relation "measure (\<lambda>(llm, q, ias, st). length ias)")
  show "wf (measure (\<lambda>(llm, q, ias, st). length ias))" by simp
next
  fix llm :: "'w llm" and q :: string and intermediate_answers :: "string list"
    and st :: "'w \<times> call list" and answers :: "string list" and st' :: "'w \<times> call list"
  assume big: "batch_size < length intermediate_answers"
    and xy: "(answers, st') = chain_batch llm q (make_batches intermediate_answers) st"
  have len_batch: "length (fst (chain_batch llm q bs s)) = length bs" for bs s
    by (induction bs arbitrary: s) (auto split: prod.splits, metis fst_conv)
  have step: "add_to_batches (ys @ [y]) a =
      (if \<not> check_intermediate_answer a then ys @ [y]
       else if batch_size \<le> length y then ys @ [y, [a]] else ys @ [y @ [a]])" for ys y a
    by (simp add: add_to_batches_def Let_def batch_size_def butlast_append)
  have inv: "add_to_batches bs a \<noteq> []
          \<and> (\<forall>b\<in>set (butlast (add_to_batches bs a)). length b = batch_size)
          \<and> length (last (add_to_batches bs a)) \<le> batch_size
          \<and> length (concat (add_to_batches bs a)) \<le> Suc (length (concat bs))"
    if a: "bs \<noteq> [] \<and> (\<forall>b\<in>set (butlast bs). length b = batch_size)
        \<and> length (last bs) \<le> batch_size" for bs a
  proof -
    from a obtain ys y where bs: "bs = ys @ [y]" by (cases bs rule: rev_cases) auto
    with a have "\<forall>b\<in>set ys. length b = batch_size" "length y \<le> batch_size" by auto
    then show ?thesis unfolding bs step by (auto simp: batch_size_def butlast_append)
  qed
  have fold_inv: "foldl add_to_batches bs xs \<noteq> []
          \<and> (\<forall>b\<in>set (butlast (foldl add_to_batches bs xs)). length b = batch_size)
          \<and> length (concat (foldl add_to_batches bs xs)) \<le> length xs + length (concat bs)"
    if "bs \<noteq> [] \<and> (\<forall>b\<in>set (butlast bs). length b = batch_size)
        \<and> length (last bs) \<le> batch_size" for bs xs
    using that
  proof (induction xs arbitrary: bs)
    case Nil
    then show ?case by simp
  next
    case (Cons a xs)
    let ?bs' = "add_to_batches bs a"
    note i = inv [OF Cons.prems, of a]
    then have pre: "?bs' \<noteq> [] \<and> (\<forall>b\<in>set (butlast ?bs'). length b = batch_size)
        \<and> length (last ?bs') \<le> batch_size" by blast
    have l: "length (concat ?bs') \<le> Suc (length (concat bs))" using i by blast
    note h = Cons.IH [OF pre]
    then have "length (concat (foldl add_to_batches ?bs' xs)) \<le> length xs + length (concat ?bs')"
      by blast
    with l have "length (concat (foldl add_to_batches ?bs' xs))
        \<le> length (a # xs) + length (concat bs)" by simp
    with h show ?case unfolding foldl_Cons by blast
  qed
  have uniform: "length (concat zs) = n * length zs"
    if "\<forall>b\<in>set zs. length b = n" for zs :: "string list list" and n
    using that by (induction zs) auto
  have full: "batch_size * (length bs - 1) \<le> length (concat bs)"
    if u: "\<forall>b\<in>set (butlast bs). length b = batch_size" for bs :: "string list list"
  proof (cases bs rule: rev_cases)
    case Nil
    then show ?thesis by simp
  next
    case (snoc ys y)
    then have "length (concat ys) = batch_size * length ys"
      using u uniform [of ys batch_size] by simp
    then show ?thesis using snoc by simp
  qed
  let ?bs = "make_batches intermediate_answers"
  have m: "?bs \<noteq> []" "\<forall>b\<in>set (butlast ?bs). length b = batch_size"
    "length (concat ?bs) \<le> length intermediate_answers"
    using fold_inv [of "[[]]" intermediate_answers] by (simp_all add: make_batches_def batch_size_def)
  have "batch_size * (length ?bs - 1) \<le> length intermediate_answers"
    using full [OF m(2)] m(3) by linarith
  then have "length ?bs < length intermediate_answers"
    using big by (simp add: batch_size_def)
  moreover have "length answers = length ?bs"
    using len_batch [of ?bs st] xy by (metis fst_conv)
  ultimately show "((llm, q, answers, st'), (llm, q, intermediate_answers, st))
      \<in> measure (\<lambda>(llm, q, ias, st). length ias)" by simp
qed

text \<open>
  The part of \<open>_query\<close> from the answers of the documents to the final answer: the loop,
  then one invocation of \<open>final_answer_chain\<close> on what the loop leaves. The result is
  \<open>final_answer\<close>, \<open>all_intermediate_answers\<close> and the invocations made.
\<close>

definition reduce_answers ::
  "'w llm \<Rightarrow> string \<Rightarrow> string list \<Rightarrow> 'w \<Rightarrow> string \<times> string list list \<times> call list" where
  "reduce_answers llm query_an intermediate_answers world =
     (case reduce_loop llm query_an intermediate_answers (world, []) of
        (remaining, st) \<Rightarrow>
          (case final_answer_chain llm query_an remaining st of
             (final_answer, (world', calls)) \<Rightarrow>
               (final_answer, [intermediate_answers, remaining], calls)))"

text \<open>
  The shape of the list of batches inside the loop: not empty, every batch but the last
  full, the last one not over the size and empty only at the start.
\<close>

definition well_batched :: "string list list \<Rightarrow> bool" where
  "well_batched bs \<longleftrightarrow> bs \<noteq> [] \<and> (\<forall>b\<in>set (butlast bs). length b = batch_size)
     \<and> length (last bs) \<le> batch_size \<and> (last bs = [] \<longrightarrow> bs = [[]])"

text \<open>Twelve usable answers and a model that echoes its prompt, for a concrete run.\<close>

definition twelve_answers :: "string list" where
  "twelve_answers = [''a1'', ''a2'', ''a3'', ''a4'', ''a5'', ''a6'', ''a7'', ''a8'', ''a9'',
     ''a10'', ''a11'', ''a12'']"

definition echo_llm :: "nat llm" where
  "echo_llm world question answers = (answers, Suc world)"

subsection \<open>The cleanup before a recursive summary\<close>

text \<open>
  \<open>re.search(r"- Chunk \d+/\d+", l)\<close>: at some position the literal, a run of digits,
  a slash and a digit. The slash is no digit, so the first \<open>\d+\<close> can only match the
  whole run of digits that follows the literal.
\<close>

definition chunk_marker_at :: "string \<Rightarrow> bool" where
  "chunk_marker_at s =
     (startswith s ''- Chunk '' \<and>
      (let rest = drop 8 s
       in takeWhile re_digit rest \<noteq> [] \<and>
          (case dropWhile re_digit rest of
             c # d # _ \<Rightarrow> c = CHR ''/'' \<and> re_digit d
           | _ \<Rightarrow> False)))"

fun re_search_chunk :: "string \<Rightarrow> bool" where
  "re_search_chunk [] = False"
| "re_search_chunk (c # cs) = (chunk_marker_at (c # cs) \<or> re_search_chunk cs)"

text \<open>
  The loop \<open>for i, l in enumerate(sp)\<close>: a separator line and a chunk marker line are
  overwritten with \<open>None\<close>; at a line that starts the block before the recursion, that
  line and all the following ones are, and the loop ends.
\<close>

fun mark_lines :: "string list \<Rightarrow> string option list" where
  "mark_lines [] = []"
| "mark_lines (l # ls) =
     (if strip l = ''- ---'' then None # mark_lines ls
      else if re_search_chunk l then None # mark_lines ls
      else if startswith (strip l) ''- BEFORE RECURSION #''
        then replicate (length (l # ls)) None
      else Some l # mark_lines ls)"

text \<open>
  The cleanup of \<open>summary_text\<close> at the start of every recursion of
  \<open>summarize_documents\<close>, with its three assertions. \<open>[s.rstrip() for s in sp if s]\<close>
  leaves out \<open>None\<close> and the empty lines.
\<close>

definition strip_markers :: "string \<Rightarrow> error + string" where
  "strip_markers summary_text =
     (let sp = mark_lines (split_nl summary_text);
          cleaned = join_nl (map rstrip (filter (\<lambda>s. s \<noteq> []) (drop_none sp)))
      in if contains cleaned ''- ---'' then Inl AssertionError
         else if contains cleaned ''- Chunk '' then Inl AssertionError
         else if contains cleaned ''- BEFORE RECURSION # '' then Inl AssertionError
         else Inr cleaned)"

text \<open>A line that the loop overwrites, or at which it ends.\<close>

definition is_marker :: "string \<Rightarrow> bool" where
  "is_marker l \<longleftrightarrow> strip l = ''- ---'' \<or> re_search_chunk l
     \<or> startswith (strip l) ''- BEFORE RECURSION #''"

text \<open>A summary with all three kinds of markers, for a concrete run.\<close>

definition marked_summary :: string where
  "marked_summary = ''- Chunk 1/3'' @ [newline] @ ''- point one  '' @ [newline] @ ''  - ---''
     @ [newline] @ ''- point two'' @ [newline] @ ''- BEFORE RECURSION #1'' @ [newline] @ ''- old''"

section \<open>Properties of the string primitives\<close>

lemma lstrip_empty_iff: "lstrip s = [] \<longleftrightarrow> (\<forall>c\<in>set s. py_isspace c)"
  by (simp add: lstrip_def dropWhile_eq_Nil_conv)

lemma rstrip_empty_iff: "rstrip s = [] \<longleftrightarrow> (\<forall>c\<in>set s. py_isspace c)"
  by (simp add: rstrip_def dropWhile_eq_Nil_conv)

lemma strip_empty_iff: "strip s = [] \<longleftrightarrow> (\<forall>c\<in>set s. py_isspace c)"
proof
  assume blank: "strip s = []"
  show "\<forall>c\<in>set s. py_isspace c"
  proof (cases "dropWhile py_isspace s")
    case Nil
    then show ?thesis by (simp add: dropWhile_eq_Nil_conv)
  next
    case (Cons x xs)
    then have "\<not> py_isspace x" using hd_dropWhile [of py_isspace s] by auto
    moreover have "py_isspace x"
      using blank Cons by (simp add: strip_def rstrip_empty_iff lstrip_def)
    ultimately show ?thesis by simp
  qed
next
  assume "\<forall>c\<in>set s. py_isspace c"
  then show "strip s = []"
    by (auto simp: strip_def lstrip_def rstrip_def dropWhile_eq_Nil_conv dest: set_dropWhileD)
qed

lemma startswith_iff: "startswith s p \<longleftrightarrow> (\<exists>post. s = p @ post)"
  unfolding startswith_def
  by (metis append_eq_conv_conj append_take_drop_id)

section \<open>check_intermediate_answer: the usability heuristic\<close>

lemma irrelevant_at_iff:
  "irrelevant_at prev s \<longleftrightarrow>
     (\<exists>post. s = ''IRRELEVANT'' @ post
        \<and> (case prev of None \<Rightarrow> True | Some p \<Rightarrow> \<not> re_word_char p)
        \<and> (post = [] \<or> \<not> re_word_char (hd post)))"
  unfolding irrelevant_at_def startswith_iff
  by (auto split: list.splits)

lemma search_from_iff:
  "search_from prev s \<longleftrightarrow>
     (\<exists>pre post. s = pre @ ''IRRELEVANT'' @ post
        \<and> (case (if pre = [] then prev else Some (last pre)) of
              None \<Rightarrow> True | Some p \<Rightarrow> \<not> re_word_char p)
        \<and> (post = [] \<or> \<not> re_word_char (hd post)))"
  (is "_ \<longleftrightarrow> ?R prev s")
proof (induction s arbitrary: prev)
  case Nil
  then show ?case by simp
next
  case (Cons c cs)
  have "?R prev (c # cs) \<longleftrightarrow> irrelevant_at prev (c # cs) \<or> ?R (Some c) cs"
  proof
    assume "?R prev (c # cs)"
    then obtain pre post where p: "c # cs = pre @ ''IRRELEVANT'' @ post"
      "(case (if pre = [] then prev else Some (last pre)) of
          None \<Rightarrow> True | Some p \<Rightarrow> \<not> re_word_char p)"
      "post = [] \<or> \<not> re_word_char (hd post)" by blast
    show "irrelevant_at prev (c # cs) \<or> ?R (Some c) cs"
    proof (cases pre)
      case Nil
      then have "irrelevant_at prev (c # cs)"
        using p unfolding irrelevant_at_iff by auto
      then show ?thesis ..
    next
      case (Cons a pre')
      then have "cs = pre' @ ''IRRELEVANT'' @ post" using p(1) by simp
      moreover have "(case (if pre' = [] then Some c else Some (last pre')) of
                        None \<Rightarrow> True | Some p \<Rightarrow> \<not> re_word_char p)"
        using p(1,2) Cons by (auto split: if_splits)
      ultimately have "?R (Some c) cs" using p(3) by blast
      then show ?thesis ..
    qed
  next
    assume "irrelevant_at prev (c # cs) \<or> ?R (Some c) cs"
    then show "?R prev (c # cs)"
    proof
      assume "irrelevant_at prev (c # cs)"
      then obtain post where "c # cs = [] @ ''IRRELEVANT'' @ post"
        "(case prev of None \<Rightarrow> True | Some p \<Rightarrow> \<not> re_word_char p)"
        "post = [] \<or> \<not> re_word_char (hd post)"
        unfolding irrelevant_at_iff by auto
      then show ?thesis by (intro exI [of _ "[]"] exI [of _ post]) simp
    next
      assume "?R (Some c) cs"
      then obtain pre post where p: "cs = pre @ ''IRRELEVANT'' @ post"
        "(case (if pre = [] then Some c else Some (last pre)) of
            None \<Rightarrow> True | Some p \<Rightarrow> \<not> re_word_char p)"
        "post = [] \<or> \<not> re_word_char (hd post)" by blast
      show ?thesis
        using p by (intro exI [of _ "c # pre"] exI [of _ post]) (auto split: if_splits)
    qed
  qed
  then show ?case using Cons.IH [of "Some c"] by simp
qed

text \<open>The regular-expression search finds exactly the standalone word of the specification.\<close>

lemma re_search_IRRELEVANT_iff:
  "re_search_IRRELEVANT a \<longleftrightarrow> contains_standalone_IRRELEVANT a"
  unfolding re_search_IRRELEVANT_def contains_standalone_IRRELEVANT_def search_from_iff
  by (auto split: if_splits)

text \<open>
  C7: for every string \<open>a\<close>, \<open>check_intermediate_answer a\<close> is true if and only if either
  \<open>a\<close> does not contain the standalone word IRRELEVANT and is shorter than 20 characters
  (twice the length of the sentinel), or \<open>a\<close> has at least 20 characters. In particular
  the sentinel itself is not usable, and every string of length at least 20 is usable
  whatever it contains.
\<close>

theorem check_intermediate_answer_spec:
  "check_intermediate_answer a
     = ((\<not> contains_standalone_IRRELEVANT a \<and> length a < 20) \<or> 20 \<le> length a)
   \<and> check_intermediate_answer ''IRRELEVANT'' = False
   \<and> (20 \<le> length a \<longrightarrow> check_intermediate_answer a)"
proof -
  have "re_search_IRRELEVANT ''IRRELEVANT''"
    by (simp add: re_search_IRRELEVANT_def irrelevant_at_def startswith_def)
  then show ?thesis
    by (auto simp: check_intermediate_answer_def re_search_IRRELEVANT_iff)
qed

theorem check_intermediate_answer_spec_witness:
  "20 \<le> length ''IRRELEVANT IRRELEVANT''
   \<and> contains_standalone_IRRELEVANT ''IRRELEVANT IRRELEVANT''
   \<and> check_intermediate_answer ''IRRELEVANT IRRELEVANT''"
proof -
  have "re_search_IRRELEVANT ''IRRELEVANT IRRELEVANT''"
    by (simp add: re_search_IRRELEVANT_def irrelevant_at_def startswith_def re_word_char_def)
  then show ?thesis
    using check_intermediate_answer_spec [of "''IRRELEVANT IRRELEVANT''"]
    by (simp add: re_search_IRRELEVANT_iff)
qed

section \<open>parse_eval_output: strict parsing of the judge model's output\<close>

text \<open>
  C1 (as amended): for every input string \<open>s\<close>, \<open>parse_eval_output\<close> raises
  \<open>InvalidDocEvaluationByWeakLLM\<close> exactly when \<open>s\<close> is empty or whitespace-only, contains
  a \<open>-\<close>, contains no digit character, or its digit characters include both \<open>0\<close> and
  \<open>1\<close> or neither of them. It returns \<open>"0"\<close> or \<open>"1"\<close> exactly when \<open>s\<close> is not blank,
  has no \<open>-\<close> and has exactly one digit character, which is that digit. On the remaining
  inputs (two or more digit characters, with exactly one of \<open>0\<close> and \<open>1\<close> among them) it
  raises a bare \<open>Exception\<close>.
\<close>

theorem parse_eval_output_cases:
  "(parse_eval_output s = Inl InvalidDocEvaluationByWeakLLM \<longleftrightarrow>
      (\<forall>c\<in>set s. py_isspace c) \<or> CHR ''-'' \<in> set s \<or> digits_of s = []
      \<or> (CHR ''0'' \<in> set (digits_of s) \<and> CHR ''1'' \<in> set (digits_of s))
      \<or> (CHR ''0'' \<notin> set (digits_of s) \<and> CHR ''1'' \<notin> set (digits_of s)))
   \<and> (parse_eval_output s = Inr r \<longleftrightarrow>
      \<not> (\<forall>c\<in>set s. py_isspace c) \<and> CHR ''-'' \<notin> set s
      \<and> ((digits_of s = ''0'' \<and> r = ''0'') \<or> (digits_of s = ''1'' \<and> r = ''1'')))
   \<and> (parse_eval_output s = Inl GenericException \<longleftrightarrow>
      \<not> (\<forall>c\<in>set s. py_isspace c) \<and> CHR ''-'' \<notin> set s
      \<and> 2 \<le> length (digits_of s)
      \<and> (CHR ''0'' \<in> set (digits_of s) \<longleftrightarrow> CHR ''1'' \<notin> set (digits_of s)))"
proof -
  let ?ds = "digits_of s"
  consider (blank) "strip s = []"
    | (dash) "strip s \<noteq> []" "CHR ''-'' \<in> set s"
    | (none) "strip s \<noteq> []" "CHR ''-'' \<notin> set s" "?ds = []"
    | (one) "strip s \<noteq> []" "CHR ''-'' \<notin> set s" "?ds \<noteq> []" "length ?ds = 1"
    | (many) "strip s \<noteq> []" "CHR ''-'' \<notin> set s" "?ds \<noteq> []" "length ?ds \<noteq> 1"
    by blast
  then show ?thesis
  proof cases
    case blank
    then show ?thesis by (simp add: parse_eval_output_def strip_empty_iff)
  next
    case dash
    then show ?thesis by (simp add: parse_eval_output_def strip_empty_iff)
  next
    case none
    then show ?thesis by (simp add: parse_eval_output_def strip_empty_iff)
  next
    case one
    then obtain d where d: "?ds = [d]" by (cases ?ds) auto
    with one show ?thesis
      by (auto simp: parse_eval_output_def strip_empty_iff Let_def)
  next
    case many
    then have "2 \<le> length ?ds" by (cases ?ds) (auto simp: Suc_le_eq)
    with many show ?thesis
      by (auto simp: parse_eval_output_def strip_empty_iff Let_def)
  qed
qed

theorem parse_eval_output_cases_witness:
  "\<not> (\<forall>c\<in>set ''answer: 1''. py_isspace c) \<and> CHR ''-'' \<notin> set ''answer: 1''
   \<and> digits_of ''answer: 1'' = ''1'' \<and> parse_eval_output ''answer: 1'' = Inr ''1''"
  using parse_eval_output_cases [of "''answer: 1''" "''1''"]
  by (simp add: digits_of_def py_isdigit_def py_isspace_def)

text \<open>
  The claim as first stated fails on \<open>"11"\<close>: not blank, no \<open>-\<close>, every digit character
  is \<open>1\<close>, and yet nothing is returned: the function raises the bare \<open>Exception\<close>.
\<close>

theorem parse_eval_output_repeated_digit_counterexample:
  "strip ''11'' \<noteq> [] \<and> CHR ''-'' \<notin> set ''11'' \<and> digits_of ''11'' = ''11''
   \<and> parse_eval_output ''11'' = Inl GenericException
   \<and> parse_eval_output ''11'' \<noteq> Inr ''1''"
  by (simp add: parse_eval_output_def strip_empty_iff digits_of_def py_isdigit_def py_isspace_def)

section \<open>refilter_docs: filtering by the judge model's votes\<close>

lemma re_digit_isdigit: "re_digit c \<Longrightarrow> py_isdigit c"
  by (simp add: re_digit_def py_isdigit_def Let_def)

lemma decimal_value_nonneg_aux: "0 \<le> a \<Longrightarrow> list_all re_digit s \<Longrightarrow>
  0 \<le> foldl (\<lambda>acc c. 10 * acc + (int (of_char c) - 48)) a s"
  by (induction s arbitrary: a) (auto simp: re_digit_def Let_def)

lemma decimal_value_nonneg: "list_all re_digit s \<Longrightarrow> 0 \<le> decimal_value s"
  unfolding decimal_value_def by (rule decimal_value_nonneg_aux) simp_all

lemma map_int_decimal:
  "list_all decimal_literal vs \<Longrightarrow> map_int vs = Inr (map decimal_value vs)"
  by (induction vs) (auto simp: py_int_def)

lemma map_int_not_decimal:
  "\<not> list_all decimal_literal vs \<Longrightarrow> map_int vs = Inl ValueError"
  by (induction vs) (auto simp: py_int_def split: sum.splits)

lemma map_int_error: "map_int vs = Inl e \<Longrightarrow> e = ValueError"
  by (induction vs arbitrary: e) (auto simp: py_int_def split: sum.splits if_splits)

lemma all_decimal_all_isdigit: "all_decimal ev \<Longrightarrow> \<not> has_non_digit_vote ev"
  unfolding all_decimal_def has_non_digit_vote_def py_str_isdigit_def decimal_literal_def
  by (auto simp: list_all_iff re_digit_isdigit)

lemma vote_sum_nonneg: "all_decimal ev \<Longrightarrow> 0 \<le> vote_sum ev"
  unfolding all_decimal_def vote_sum_def decimal_literal_def
  by (auto simp: list_all_iff intro!: sum_list_nonneg decimal_value_nonneg)

lemma vote_sum_zero_iff:
  "all_decimal ev \<Longrightarrow> vote_sum ev = 0 \<longleftrightarrow> (\<forall>v\<in>set (votes_of ev). decimal_value v = 0)"
  unfolding all_decimal_def vote_sum_def decimal_literal_def
  by (subst sum_list_nonneg_eq_0_iff) (auto simp: list_all_iff intro!: decimal_value_nonneg)

text \<open>
  The loop, when every entry either has a vote that fails \<open>str.isdigit\<close> or consists of
  decimal strings only: it keeps the documents selected by \<open>kept_by_votes\<close> and warns
  once for every entry with a non-digit vote.
\<close>

lemma filter_loop_ok:
  "ie + length evs = length docs \<Longrightarrow>
   \<forall>ev\<in>set evs. has_non_digit_vote ev \<or> all_decimal ev \<Longrightarrow>
   filter_loop docs ie evs acc logs
     = Inr (acc @ kept_docs (drop ie docs) evs, logs @ warnings_of evs)"
proof (induction evs arbitrary: ie acc logs)
  case Nil
  then show ?case by (simp add: kept_docs_def)
next
  case (Cons ev evs)
  then have lt: "ie < length docs" and rest: "Suc ie + length evs = length docs" by auto
  have dr: "drop ie docs = docs ! ie # drop (Suc ie) docs"
    using lt by (simp add: Cons_nth_drop_Suc)
  have ih: "\<And>acc logs. filter_loop docs (Suc ie) evs acc logs
     = Inr (acc @ kept_docs (drop (Suc ie) docs) evs, logs @ warnings_of evs)"
    using Cons.IH [OF rest] Cons.prems(2) by simp
  show ?case
  proof (cases "has_non_digit_vote ev")
    case True
    then show ?thesis
      using lt by (simp add: ih dr kept_docs_def kept_by_votes_def has_non_digit_vote_def)
  next
    case False
    then have dec: "all_decimal ev" using Cons.prems(2) by auto
    then have "map_int (votes_of ev) = Inr (map decimal_value (votes_of ev))"
      unfolding all_decimal_def by (rule map_int_decimal)
    then show ?thesis
      using False lt
      by (simp add: ih dr kept_docs_def kept_by_votes_def has_non_digit_vote_def vote_sum_def)
  qed
qed

lemma filter_loop_subseq:
  "filter_loop docs ie evs acc logs = Inr (out, logs') \<Longrightarrow>
   ie + length evs = length docs \<Longrightarrow>
   \<exists>rest. out = acc @ rest \<and> subseq rest (drop ie docs)"
proof (induction evs arbitrary: ie acc logs)
  case Nil
  then show ?case by simp
next
  case (Cons ev evs)
  then have lt: "ie < length docs" and rest: "Suc ie + length evs = length docs" by auto
  have dr: "drop ie docs = docs ! ie # drop (Suc ie) docs"
    using lt by (simp add: Cons_nth_drop_Suc)
  from Cons.prems(1) consider
      (keep) l where "filter_loop docs (Suc ie) evs (acc @ [docs ! ie]) l = Inr (out, logs')"
    | (drop) "filter_loop docs (Suc ie) evs acc logs = Inr (out, logs')"
    using lt by (auto simp: Let_def split: if_splits sum.splits)
  then show ?case
  proof cases
    case keep
    from Cons.IH [OF keep rest] obtain r where "out = (acc @ [docs ! ie]) @ r"
      "subseq r (drop (Suc ie) docs)" by blast
    then show ?thesis unfolding dr by (intro exI [of _ "docs ! ie # r"]) simp
  next
    case drop
    from Cons.IH [OF drop rest] obtain r where "out = acc @ r"
      "subseq r (drop (Suc ie) docs)" by blast
    then show ?thesis unfolding dr by (intro exI [of _ r]) (simp add: list_emb_Cons)
  qed
qed

lemma kept_docs_nths:
  "length docs = length evs \<Longrightarrow>
   kept_docs docs evs = nths docs {i. i < length evs \<and> kept_by_votes (evs ! i)}"
proof (induction docs evs rule: list_induct2)
  case Nil
  then show ?case by (simp add: kept_docs_def)
next
  case (Cons d ds e es)
  have "{j. Suc j \<in> {i. i < length (e # es) \<and> kept_by_votes ((e # es) ! i)}}
        = {i. i < length es \<and> kept_by_votes (es ! i)}" by auto
  then show ?case using Cons by (simp add: kept_docs_def nths_Cons)
qed

text \<open>
  An entry whose votes all pass \<open>str.isdigit\<close> while one of them is no decimal literal
  makes \<open>int\<close> raise, and the loop with it.
\<close>

lemma filter_loop_value_error:
  "ie + length evs = length docs \<Longrightarrow>
   \<exists>ev\<in>set evs. \<not> has_non_digit_vote ev \<and> \<not> all_decimal ev \<Longrightarrow>
   filter_loop docs ie evs acc logs = Inl ValueError"
proof (induction evs arbitrary: ie acc logs)
  case Nil
  then show ?case by simp
next
  case (Cons ev evs)
  then have lt: "ie < length docs" and rest: "Suc ie + length evs = length docs" by auto
  show ?case
  proof (cases "\<not> has_non_digit_vote ev \<and> \<not> all_decimal ev")
    case True
    then have "map_int (votes_of ev) = Inl ValueError"
      unfolding all_decimal_def by (intro map_int_not_decimal) simp
    then show ?thesis using True by (simp add: has_non_digit_vote_def)
  next
    case False
    then have later: "\<exists>ev\<in>set evs. \<not> has_non_digit_vote ev \<and> \<not> all_decimal ev"
      using Cons.prems(2) by auto
    have ih: "\<And>acc logs. filter_loop docs (Suc ie) evs acc logs = Inl ValueError"
      using Cons.IH [OF rest later] by simp
    show ?thesis
      using lt by (auto simp: ih Let_def split: sum.splits dest: map_int_error)
  qed
qed

lemma refilter_docs_result:
  assumes "length docs = length evs" and "docs \<noteq> []"
    and "\<forall>ev\<in>set evs. has_non_digit_vote ev \<or> all_decimal ev"
  shows "refilter_docs docs evs =
    (if kept_docs docs evs = [] then Inl NoDocumentsAfterWeakLLMFiltering
     else Inr (kept_docs docs evs, warnings_of evs))"
proof -
  have "filter_loop docs 0 evs [] [] = Inr ([] @ kept_docs (drop 0 docs) evs, [] @ warnings_of evs)"
    using assms by (intro filter_loop_ok) simp_all
  then show ?thesis using assms by (simp add: refilter_docs_def)
qed

lemma refilter_docs_value_error:
  assumes "length docs = length evs" and "docs \<noteq> []"
    and "\<exists>ev\<in>set evs. \<not> has_non_digit_vote ev \<and> \<not> all_decimal ev"
  shows "refilter_docs docs evs = Inl ValueError"
proof -
  have "filter_loop docs 0 evs [] [] = Inl ValueError"
    using assms by (intro filter_loop_value_error) simp_all
  then show ?thesis using assms by (simp add: refilter_docs_def)
qed

lemma refilter_docs_returns:
  assumes "refilter_docs docs evs = Inr (out, logs)"
  shows "length docs = length evs \<and> docs \<noteq> [] \<and> out \<noteq> []
    \<and> (\<forall>ev\<in>set evs. has_non_digit_vote ev \<or> all_decimal ev)
    \<and> out = kept_docs docs evs \<and> logs = warnings_of evs"
proof -
  have len: "length docs = length evs" and ne: "docs \<noteq> []"
    using assms by (auto simp: refilter_docs_def split: if_splits)
  have ok: "\<forall>ev\<in>set evs. has_non_digit_vote ev \<or> all_decimal ev"
  proof (rule ccontr)
    assume "\<not> ?thesis"
    then have "refilter_docs docs evs = Inl ValueError"
      using len ne by (intro refilter_docs_value_error) auto
    then show False using assms by simp
  qed
  show ?thesis
    using assms len ne ok refilter_docs_result [OF len ne ok]
    by (auto split: if_splits)
qed

lemma kept_by_votes_exists:
  "length docs = length evs \<Longrightarrow> kept_docs docs evs \<noteq> [] \<longleftrightarrow> (\<exists>ev\<in>set evs. kept_by_votes ev)"
proof (induction docs evs rule: list_induct2)
  case Nil
  then show ?case by (simp add: kept_docs_def)
next
  case (Cons d ds e es)
  then show ?case by (auto simp: kept_docs_def)
qed

text \<open>
  C6 (as amended): for lists of equal length (otherwise the function's own assertion
  fails first), \<open>refilter_docs\<close> raises \<open>NoDocumentsRetrieved\<close> when the document list is
  empty; it raises the distinct error \<open>NoDocumentsAfterWeakLLMFiltering\<close> (the name in
  \<open>query.py\<close>) when the list is not empty and every document is dropped by its votes,
  all of them decimal literals that \<open>int\<close> converts (no more than 4300 digits) and of sum
  zero; when some document is kept and every vote list either has a vote failing
  \<open>str.isdigit\<close> or consists of such literals only, it returns a non-empty list; and it
  never returns an empty list.
\<close>

theorem refilter_docs_errors:
  assumes "length docs = length evs"
  shows "(docs = [] \<longrightarrow> refilter_docs docs evs = Inl NoDocumentsRetrieved)
    \<and> (docs \<noteq> [] \<and> (\<forall>ev\<in>set evs. all_decimal ev \<and> vote_sum ev = 0)
         \<longrightarrow> refilter_docs docs evs = Inl NoDocumentsAfterWeakLLMFiltering)
    \<and> (docs \<noteq> [] \<and> (\<forall>ev\<in>set evs. has_non_digit_vote ev \<or> all_decimal ev)
           \<and> (\<exists>ev\<in>set evs. kept_by_votes ev)
         \<longrightarrow> (\<exists>out logs. refilter_docs docs evs = Inr (out, logs) \<and> out \<noteq> []))
    \<and> (\<forall>out logs. refilter_docs docs evs = Inr (out, logs) \<longrightarrow> out \<noteq> [])"
proof (intro conjI impI allI)
  assume "docs = []"
  then show "refilter_docs docs evs = Inl NoDocumentsRetrieved"
    using assms by (simp add: refilter_docs_def)
next
  assume a: "docs \<noteq> [] \<and> (\<forall>ev\<in>set evs. all_decimal ev \<and> vote_sum ev = 0)"
  then have "\<not> (\<exists>ev\<in>set evs. kept_by_votes ev)"
    by (auto simp: kept_by_votes_def dest: all_decimal_all_isdigit)
  then have "kept_docs docs evs = []"
    using kept_by_votes_exists [OF assms] by simp
  then show "refilter_docs docs evs = Inl NoDocumentsAfterWeakLLMFiltering"
    using a refilter_docs_result [OF assms, of] by auto
next
  assume a: "docs \<noteq> [] \<and> (\<forall>ev\<in>set evs. has_non_digit_vote ev \<or> all_decimal ev)
     \<and> (\<exists>ev\<in>set evs. kept_by_votes ev)"
  then have "kept_docs docs evs \<noteq> []"
    using kept_by_votes_exists [OF assms] by simp
  then show "\<exists>out logs. refilter_docs docs evs = Inr (out, logs) \<and> out \<noteq> []"
    using a refilter_docs_result [OF assms] by auto
next
  fix out logs
  assume "refilter_docs docs evs = Inr (out, logs)"
  then show "out \<noteq> []" by (simp add: refilter_docs_returns)
qed

text \<open>
  C10: for lists of equal length with a non-empty document list, the list returned by
  \<open>refilter_docs\<close> is an order-preserving sublist of \<open>unfiltered_docs\<close>: it consists of
  the input documents at the kept positions, each position once and in input order, so
  no document is modified, duplicated or created.
\<close>

theorem refilter_docs_order_preserving:
  assumes "length docs = length evs" and "docs \<noteq> []"
    and "refilter_docs docs evs = Inr (out, logs)"
  shows "subseq out docs \<and> set out \<subseteq> set docs \<and> out \<noteq> []
    \<and> out = nths docs {i. i < length evs \<and> kept_by_votes (evs ! i)}"
proof -
  from assms(3) obtain fd l where loop: "filter_loop docs 0 evs [] [] = Inr (fd, l)"
    and out: "out = fd"
    by (auto simp: refilter_docs_def split: if_splits sum.splits)
  from filter_loop_subseq [OF loop] assms(1) have sub: "subseq out docs"
    using out by simp
  then have "set out \<subseteq> set docs" by (auto elim: list_emb_set)
  moreover have "out = nths docs {i. i < length evs \<and> kept_by_votes (evs ! i)}"
    using refilter_docs_returns [OF assms(3)] kept_docs_nths [OF assms(1)] by simp
  moreover have "out \<noteq> []" using refilter_docs_returns [OF assms(3)] by blast
  ultimately show ?thesis using sub by simp
qed

text \<open>Unfolding these evaluates a concrete call.\<close>

lemmas vote_eval = refilter_docs_def py_str_isdigit_def py_isdigit_def py_int_def re_digit_def
  decimal_literal_def int_max_str_digits_def decimal_value_def all_decimal_def vote_sum_def
  has_non_digit_vote_def kept_by_votes_def

theorem refilter_docs_errors_witness:
  "refilter_docs [] [] = Inl NoDocumentsRetrieved
   \<and> refilter_docs [doc_a, doc_b] [Votes [''0'', ''0'', ''0''], Single ''0'']
       = Inl NoDocumentsAfterWeakLLMFiltering
   \<and> (\<exists>out logs. refilter_docs [doc_a, doc_b] [Votes [''1'', ''0'', ''0''], Votes [''0'', ''0'', ''0'']]
         = Inr (out, logs) \<and> out \<noteq> [])"
  using refilter_docs_errors [of "[]" "[]"]
    refilter_docs_errors [of "[doc_a, doc_b]" "[Votes [''0'', ''0'', ''0''], Single ''0'']"]
    refilter_docs_errors [of "[doc_a, doc_b]" "[Votes [''1'', ''0'', ''0''], Votes [''0'', ''0'', ''0'']]"]
  by (simp add: all_decimal_def vote_sum_def has_non_digit_vote_def kept_by_votes_def
      py_str_isdigit_def py_isdigit_def re_digit_def decimal_value_def decimal_literal_def
      int_max_str_digits_def)

text \<open>
  The claim as first stated fails where the lengths differ: an empty document list with
  one evaluation raises \<open>AssertionError\<close>, not \<open>NoDocumentsRetrieved\<close>. And a kept first
  document does not make the call return when a later vote list makes \<open>int\<close> raise, be it
  on a superscript digit or on a vote of 4301 digits; nor is \<open>NoDocumentsAfterWeakLLMFiltering\<close>
  raised on a single vote of 4301 zeros.
\<close>

theorem refilter_docs_assert_counterexample:
  "refilter_docs [] [Votes [''1'']] = Inl AssertionError
   \<and> refilter_docs [] [Votes [''1'']] \<noteq> Inl NoDocumentsRetrieved
   \<and> refilter_docs [doc_a, doc_b] [Votes [''1''], Votes [[CHR 0xB2]]] = Inl ValueError
   \<and> refilter_docs [doc_a, doc_b] [Votes [''1''], Votes [replicate 4301 CHR ''1'']]
       = Inl ValueError
   \<and> refilter_docs [doc_a] [Votes [replicate 4301 CHR ''0'']] = Inl ValueError"
  by (simp add: vote_eval list_all_iff)

theorem refilter_docs_order_preserving_witness:
  "length [doc_a, doc_b, doc_c] = length [Votes [''1'', ''0'', ''0''], Votes [''0'', ''0'', ''0''], Single ''maybe'']
   \<and> refilter_docs [doc_a, doc_b, doc_c]
        [Votes [''1'', ''0'', ''0''], Votes [''0'', ''0'', ''0''], Single ''maybe'']
      = Inr ([doc_a, doc_c], [EvalsContainedStrings [''maybe'']])
   \<and> subseq [doc_a, doc_c] [doc_a, doc_b, doc_c]"
proof -
  have run: "refilter_docs [doc_a, doc_b, doc_c]
        [Votes [''1'', ''0'', ''0''], Votes [''0'', ''0'', ''0''], Single ''maybe'']
      = Inr ([doc_a, doc_c], [EvalsContainedStrings [''maybe'']])"
    by (simp add: vote_eval)
  have "subseq [doc_a, doc_c] [doc_a, doc_b, doc_c]"
    using refilter_docs_order_preserving [OF _ _ run] by blast
  with run show ?thesis by simp
qed

text \<open>
  Whenever \<open>refilter_docs\<close> returns, the vote rule has been applied to every document:
  decimal votes keep it exactly when their sum is not zero, a vote failing
  \<open>str.isdigit\<close> keeps it with a warning.
\<close>

lemma refilter_docs_vote_rule:
  assumes "refilter_docs docs evs = Inr (out, logs)"
  shows "out = nths docs {i. i < length evs \<and> kept_by_votes (evs ! i)}
    \<and> logs = warnings_of evs
    \<and> (\<forall>ev\<in>set evs. (all_decimal ev \<longrightarrow> (kept_by_votes ev \<longleftrightarrow> vote_sum ev \<noteq> 0))
          \<and> (has_non_digit_vote ev \<longrightarrow> kept_by_votes ev)
          \<and> (has_non_digit_vote ev \<or> all_decimal ev))"
  using refilter_docs_returns [OF assms] kept_docs_nths [of docs evs]
  by (auto simp: kept_by_votes_def dest: all_decimal_all_isdigit)

text \<open>
  C5: a document is kept if and only if the integer sum of its votes is not zero when
  its votes are all digit strings, and is retained with a warning when one of its votes
  is not a digit string. The code misses one case: the vote U+00B2 (superscript two) passes
  \<open>str.isdigit\<close>, so the document is not retained with a warning, and \<open>int\<close> rejects it,
  so no sum is taken: \<open>refilter_docs\<close> raises \<open>ValueError\<close>. On the votes of the
  specification, \<open>["1", "0", "0"]\<close> keeps the document and \<open>["0", "0", "0"]\<close> drops it.
\<close>

theorem refilter_docs_superscript_vote:
  "list_all py_str_isdigit [[CHR 0xB2]]
   \<and> \<not> has_non_digit_vote (Votes [[CHR 0xB2]])
   \<and> refilter_docs [doc_a] [Votes [[CHR 0xB2]]] = Inl ValueError
   \<and> refilter_docs [doc_a, doc_b] [Votes [''1'', ''0'', ''0''], Votes [''0'', ''0'', ''0'']]
       = Inr ([doc_a], [])"
  by (simp add: vote_eval)

section \<open>Deduplication of the loaded documents\<close>

lemma metadata_values_present:
  "\<forall>d\<in>set ds. metadata d k \<noteq> None \<Longrightarrow>
   metadata_values k ds = Inr (map (\<lambda>d. the (metadata d k)) ds)"
  by (induction ds) auto

lemma last_occurrences_fingerprints:
  "fingerprint ` set (last_occurrences ds) = fingerprint ` set ds"
  by (induction ds) auto

lemma last_occurrences_distinct: "distinct (map fingerprint (last_occurrences ds))"
  by (induction ds) (auto simp: last_occurrences_fingerprints)

lemma last_occurrences_subseq: "subseq (last_occurrences ds) ds"
  by (induction ds) auto

lemma last_occurrences_set: "set (last_occurrences ds) \<subseteq> set ds"
  by (induction ds) auto

lemma occurrences_length:
  "length (last_occurrences ds) + length (earlier_occurrences ds) = length ds"
  by (induction ds) auto

lemma last_occurrences_card:
  "length (last_occurrences ds) = card (fingerprint ` set ds)"
  using distinct_card [OF last_occurrences_distinct [of ds]]
  by (simp add: last_occurrences_fingerprints)

text \<open>
  The loop invariant: for every fingerprint still ahead, the counter holds the number
  of its occurrences ahead. Then a document is removed exactly when its fingerprint
  occurs again later, and the assertion never fails.
\<close>

lemma dedup_loop_result:
  assumes "\<forall>d\<in>set ds. metadata d ''hash'' \<noteq> None"
    and "\<forall>h\<in>fingerprint ` set ds. counter h = Some (int (count_list (map fingerprint ds) h))"
  shows "\<exists>slots. dedup_loop ds counter removed = Inr (slots, removed @ earlier_occurrences ds)
           \<and> drop_none slots = last_occurrences ds"
  using assms
proof (induction ds arbitrary: counter removed)
  case Nil
  then show ?case by simp
next
  case (Cons d ds)
  obtain h where h: "metadata d ''hash'' = Some h" using Cons.prems(1) by auto
  then have fp: "fingerprint d = h" by (simp add: fingerprint_def)
  have n: "counter h = Some (1 + int (count_list (map fingerprint ds) h))"
    using Cons.prems(2) fp by simp
  have keys: "\<forall>d\<in>set ds. metadata d ''hash'' \<noteq> None" using Cons.prems(1) by simp
  show ?case
  proof (cases "h \<in> fingerprint ` set ds")
    case True
    then have pos: "0 < count_list (map fingerprint ds) h"
      by (metis count_list_0_iff gr0I list.set_map)
    let ?c = "counter(h \<mapsto> 1 + int (count_list (map fingerprint ds) h) - 1)"
    have inv: "\<forall>h'\<in>fingerprint ` set ds. ?c h' = Some (int (count_list (map fingerprint ds) h'))"
      using Cons.prems(2) fp by auto
    from Cons.IH [OF keys inv, of "removed @ [d]"] obtain slots where
      "dedup_loop ds ?c (removed @ [d]) = Inr (slots, (removed @ [d]) @ earlier_occurrences ds)"
      "drop_none slots = last_occurrences ds" by blast
    then show ?thesis
      using True h n fp pos by simp
  next
    case False
    then have zero: "count_list (map fingerprint ds) h = 0"
      by (simp add: count_list_0_iff)
    have inv: "\<forall>h'\<in>fingerprint ` set ds. counter h' = Some (int (count_list (map fingerprint ds) h'))"
      using Cons.prems(2) fp False by auto
    from Cons.IH [OF keys inv, of removed] obtain slots where
      "dedup_loop ds counter removed = Inr (slots, removed @ earlier_occurrences ds)"
      "drop_none slots = last_occurrences ds" by blast
    then show ?thesis
      using False h n fp zero by simp
  qed
qed

text \<open>The only errors of the deduplication are \<open>KeyError\<close> and \<open>AssertionError\<close>.\<close>

lemma metadata_values_error: "metadata_values k ds = Inl e \<Longrightarrow> e = KeyError"
  by (induction ds arbitrary: e) (auto split: option.splits sum.splits)

lemma dedup_loop_error:
  "dedup_loop ds c r = Inl e \<Longrightarrow> e = KeyError \<or> e = AssertionError"
  by (induction ds arbitrary: c r e) (auto split: option.splits sum.splits if_splits)

lemma deduplicate_never_integrity_error:
  "deduplicate_loaded_docs docs \<noteq> Inl GenericException"
  by (auto simp: deduplicate_loaded_docs_def Let_def split: sum.splits prod.splits
      dest: metadata_values_error dedup_loop_error)

text \<open>
  C3 (as amended): for every loaded document list with distinct metadata objects, the
  keys \<open>hash\<close> and \<open>path\<close> in every metadata, and a duplicated fingerprint, the
  deduplication returns exactly one document per distinct fingerprint, namely the last
  occurrence of each fingerprint, in the input order of those last occurrences, and
  reports the number of documents removed.
\<close>

theorem deduplicate_keeps_last_occurrences:
  assumes ids: "distinct (map metadata_id docs)"
    and keys: "\<forall>d\<in>set docs. metadata d ''hash'' \<noteq> None \<and> metadata d ''path'' \<noteq> None"
    and dup: "\<not> distinct (map fingerprint docs)"
  shows "\<exists>out logs. deduplicate_loaded_docs docs = Inr (out, logs)
    \<and> distinct (map fingerprint out)
    \<and> fingerprint ` set out = fingerprint ` set docs
    \<and> out = last_occurrences docs
    \<and> subseq out docs
    \<and> length out = card (fingerprint ` set docs)
    \<and> RemovedDocs (length docs - length out) (length docs) \<in> set logs"
proof -
  let ?hashes = "map fingerprint docs"
  have len: "1 < length docs"
  proof (rule ccontr)
    assume "\<not> 1 < length docs"
    then have "length docs \<le> 1" by simp
    then have "distinct (map fingerprint docs)" by (cases docs) auto
    with dup show False by simp
  qed
  have hk: "\<forall>d\<in>set docs. metadata d ''hash'' \<noteq> None" using keys by simp
  have hashes: "metadata_values ''hash'' docs = Inr ?hashes"
    using metadata_values_present [OF hk] by (simp add: fingerprint_def [abs_def])
  have idlen: "remdups (map metadata_id docs) = map metadata_id docs"
    using ids by (rule distinct_remdups_id)
  have "length (remdups ?hashes) \<noteq> length ?hashes"
    using dup by (metis length_remdups_eq remdups_id_iff_distinct)
  then have duplen: "length docs \<noteq> length (remdups ?hashes)" by simp
  have inv: "\<forall>h\<in>fingerprint ` set docs. count_hashes ?hashes h = Some (int (count_list ?hashes h))"
    by (auto simp: count_hashes_def)
  from dedup_loop_result [OF hk inv, of "[]"] obtain slots where
    loop: "dedup_loop docs (count_hashes ?hashes) [] = Inr (slots, earlier_occurrences docs)"
    and kept: "drop_none slots = last_occurrences docs" by auto
  have pk: "\<forall>d\<in>set (last_occurrences docs). metadata d ''path'' \<noteq> None"
    using keys last_occurrences_set [of docs] by auto
  note paths = metadata_values_present [OF pk]
  have run: "deduplicate_loaded_docs docs = Inr (last_occurrences docs,
      [FoundDuplicateHashes, RemovedDocs (length (earlier_occurrences docs)) (length docs),
       RemovedPaths 0 (length docs)])"
    using len duplen
    by (simp add: deduplicate_loaded_docs_def idlen hashes loop kept paths Let_def)
  have removed: "length (earlier_occurrences docs) = length docs - length (last_occurrences docs)"
    using occurrences_length [of docs] by simp
  show ?thesis
    unfolding run
    by (simp add: last_occurrences_distinct last_occurrences_fingerprints
        last_occurrences_subseq last_occurrences_card removed)
qed


text \<open>Unfolding these evaluates the deduplication of a concrete list.\<close>

lemmas dedup_eval = deduplicate_loaded_docs_def doc_a_def doc_b_def doc_c_def count_hashes_def
  fingerprint_def Let_def

theorem deduplicate_keeps_last_occurrences_witness:
  "distinct (map metadata_id [doc_a, doc_b, doc_c])
   \<and> \<not> distinct (map fingerprint [doc_a, doc_b, doc_c])
   \<and> (\<exists>out logs. deduplicate_loaded_docs [doc_a, doc_b, doc_c] = Inr (out, logs)
         \<and> out = last_occurrences [doc_a, doc_b, doc_c]
         \<and> distinct (map fingerprint out))"
proof -
  have ids: "distinct (map metadata_id [doc_a, doc_b, doc_c])"
    by (simp add: doc_a_def doc_b_def doc_c_def)
  have keys: "\<forall>d\<in>set [doc_a, doc_b, doc_c].
      metadata d ''hash'' \<noteq> None \<and> metadata d ''path'' \<noteq> None"
    by (simp add: doc_a_def doc_b_def doc_c_def)
  have dup: "\<not> distinct (map fingerprint [doc_a, doc_b, doc_c])"
    by (simp add: doc_a_def doc_b_def doc_c_def fingerprint_def)
  from deduplicate_keeps_last_occurrences [OF ids keys dup] ids dup
  show ?thesis by blast
qed

text \<open>
  The claim as first stated fails on \<open>[doc_a, doc_b, doc_c]\<close>, where \<open>doc_a\<close> and \<open>doc_c\<close>
  share a fingerprint: the first occurrence \<open>doc_a\<close> is the one removed, and the result
  is \<open>[doc_b, doc_c]\<close>, not the first-seen list \<open>[doc_a, doc_b]\<close>.
\<close>

theorem deduplicate_first_seen_counterexample:
  "fingerprint doc_a = fingerprint doc_c
   \<and> deduplicate_loaded_docs [doc_a, doc_b, doc_c]
       = Inr ([doc_b, doc_c], [FoundDuplicateHashes, RemovedDocs 1 3, RemovedPaths 0 3])
   \<and> [doc_b, doc_c] \<noteq> [doc_a, doc_b]"
  by (simp add: dedup_eval)

text \<open>
  C9: when deduplication removes some but not all documents of a source path, the
  pipeline is to fail fatally. The code never does: \<open>removed_paths\<close> stays empty, so the
  intersection with the remaining paths is empty and the \<open>raise\<close> is unreachable
  (\<open>deduplicate_never_integrity_error\<close>). On \<open>[doc_a, doc_c, doc_b]\<close> the document \<open>doc_a\<close>
  of path \<open>p\<close> is removed, \<open>doc_b\<close> of the same path stays, and the call returns.
\<close>

theorem deduplicate_partial_removal_not_detected:
  "metadata doc_a ''path'' = Some ''p'' \<and> metadata doc_b ''path'' = Some ''p''
   \<and> deduplicate_loaded_docs [doc_a, doc_c, doc_b]
       = Inr ([doc_c, doc_b], [FoundDuplicateHashes, RemovedDocs 1 3, RemovedPaths 0 3])"
  by (simp add: dedup_eval)

section \<open>The budget check of the summary task\<close>

text \<open>Over the limit, the check raises exactly when the API base address is set.\<close>

lemma budget_check_over_limit:
  "dollar_limit < estimate_dol \<Longrightarrow>
   summary_task_budget_check estimate_dol dollar_limit api_base
     = (if truthy api_base then Inl GenericException else Inr [CostOverLimitNotCrashing])"
  by (simp add: summary_task_budget_check_def)

text \<open>
  C2: an estimate over the dollar limit is to be fatal unless the API base address of
  the model has been overridden. The code tests the address the other way round: with
  no override (\<open>None\<close>) an estimate of 10 against a limit of 5 only prints the message
  and the task goes on, and with an overridden address it raises.
\<close>

theorem budget_check_inverted:
  "summary_task_budget_check 10 5 None = Inr [CostOverLimitNotCrashing]
   \<and> summary_task_budget_check 10 5 (Some ''http://localhost:11434/v1'') = Inl GenericException"
  by (simp add: summary_task_budget_check_def truthy_def)

section \<open>The hierarchical reduction of the intermediate answers\<close>

lemma add_to_batches_snoc:
  "add_to_batches (ys @ [y]) a =
     (if \<not> check_intermediate_answer a then ys @ [y]
      else if batch_size \<le> length y then ys @ [y, [a]] else ys @ [y @ [a]])"
  by (simp add: add_to_batches_def Let_def batch_size_def butlast_append)

lemma add_to_batches_invariant:
  assumes "well_batched bs"
  shows "well_batched (add_to_batches bs a)
    \<and> concat (add_to_batches bs a) = concat bs @ filter check_intermediate_answer [a]"
proof -
  from assms obtain ys y where bs: "bs = ys @ [y]"
    unfolding well_batched_def by (cases bs rule: rev_cases) auto
  with assms have "\<forall>b\<in>set ys. length b = batch_size" "length y \<le> batch_size"
    "y = [] \<longrightarrow> ys = []"
    unfolding well_batched_def by auto
  then show ?thesis
    unfolding bs add_to_batches_snoc well_batched_def
    by (auto simp: batch_size_def butlast_append)
qed

lemma foldl_add_to_batches_invariant:
  assumes "well_batched bs"
  shows "well_batched (foldl add_to_batches bs xs)
    \<and> concat (foldl add_to_batches bs xs) = concat bs @ filter check_intermediate_answer xs"
  using assms
proof (induction xs arbitrary: bs)
  case Nil
  then show ?case by simp
next
  case (Cons a xs)
  note step = add_to_batches_invariant [OF Cons.prems, of a]
  then have wb: "well_batched (add_to_batches bs a)" by blast
  from Cons.IH [OF wb] step show ?case by simp
qed

text \<open>
  In every round of the loop the batches partition the usable answers in order, every
  batch but the last is full, and none exceeds the batch size.
\<close>

lemma make_batches_partition:
  "concat (make_batches xs) = filter check_intermediate_answer xs
   \<and> (\<forall>b\<in>set (make_batches xs). length b \<le> batch_size)
   \<and> (\<forall>b\<in>set (butlast (make_batches xs)). length b = batch_size)
   \<and> make_batches xs \<noteq> []"
proof -
  have wb0: "well_batched [[]]" by (simp add: well_batched_def)
  note inv = foldl_add_to_batches_invariant [OF wb0, of xs]
  then have wb: "well_batched (make_batches xs)" by (simp add: make_batches_def)
  have "\<forall>b\<in>set (make_batches xs). length b \<le> batch_size"
  proof
    fix b assume "b \<in> set (make_batches xs)"
    moreover have "make_batches xs = butlast (make_batches xs) @ [last (make_batches xs)]"
      using wb by (simp add: well_batched_def)
    ultimately have "b \<in> set (butlast (make_batches xs)) \<or> b = last (make_batches xs)"
      by (metis Un_iff set_append list.set(1) list.set(2) insert_iff empty_iff)
    then show "length b \<le> batch_size" using wb by (auto simp: well_batched_def)
  qed
  then show ?thesis using inv wb by (simp add: make_batches_def well_batched_def)
qed

lemma length_12:
  "length (xs :: 'a list) = 12 \<Longrightarrow>
   \<exists>x1 x2 x3 x4 x5 x6 x7 x8 x9 x10 x11 x12. xs = [x1, x2, x3, x4, x5, x6, x7, x8, x9, x10, x11, x12]"
  by (simp add: eval_nat_numeral length_Suc_conv) blast

lemma make_batches_12:
  assumes "length ias = 12" and "\<forall>a\<in>set ias. check_intermediate_answer a"
  shows "make_batches ias = [take 5 ias, take 5 (drop 5 ias), drop 10 ias]"
proof -
  from length_12 [OF assms(1)] obtain x1 x2 x3 x4 x5 x6 x7 x8 x9 x10 x11 x12
    where ias: "ias = [x1, x2, x3, x4, x5, x6, x7, x8, x9, x10, x11, x12]" by blast
  show ?thesis
    using assms(2) unfolding ias
    by (simp add: make_batches_def add_to_batches_def batch_size_def)
qed

text \<open>The two cases of the loop condition.\<close>

lemma reduce_loop_small:
  "length ias \<le> batch_size \<Longrightarrow> reduce_loop llm q ias st = (ias, st)"
  by (subst reduce_loop.simps) simp

lemma reduce_loop_big:
  "batch_size < length ias \<Longrightarrow>
   reduce_loop llm q ias st =
     (case chain_batch llm q (make_batches ias) st of
        (answers, st') \<Rightarrow> reduce_loop llm q answers st')"
  by (subst reduce_loop.simps) simp

text \<open>
  Every invocation of the chain is one model call on the joined usable answers, recorded
  after the earlier ones; a batch of invocations makes one call per batch.
\<close>

lemma final_answer_chain_eq:
  "final_answer_chain llm q b (w, calls) =
     (fst (llm w q (join_nl (filter check_intermediate_answer b))),
      snd (llm w q (join_nl (filter check_intermediate_answer b))),
      calls @ [(q, b)])"
  by (simp add: final_answer_chain_def split: prod.splits)

lemma chain_batch_calls:
  "snd (snd (chain_batch llm q bs (w, calls))) = calls @ map (Pair q) bs
   \<and> length (fst (chain_batch llm q bs (w, calls))) = length bs"
proof (induction bs arbitrary: w calls)
  case Nil
  then show ?case by simp
next
  case (Cons b bs)
  let ?r = "llm w q (join_nl (filter check_intermediate_answer b))"
  from Cons [of "snd ?r" "calls @ [(q, b)]"] show ?case
    by (auto simp: final_answer_chain_eq split: prod.splits)
qed

lemma reduce_answers_12:
  assumes len: "length ias = 12" and ok: "\<forall>a\<in>set ias. check_intermediate_answer a"
  shows "reduce_answers llm q ias world =
    (let r1 = llm world q (join_nl (take 5 ias));
         r2 = llm (snd r1) q (join_nl (take 5 (drop 5 ias)));
         r3 = llm (snd r2) q (join_nl (drop 10 ias));
         outputs = [fst r1, fst r2, fst r3];
         r4 = llm (snd r3) q (join_nl (filter check_intermediate_answer outputs))
     in (fst r4, [ias, outputs],
         [(q, take 5 ias), (q, take 5 (drop 5 ias)), (q, drop 10 ias), (q, outputs)]))"
proof -
  let ?b1 = "take 5 ias" and ?b2 = "take 5 (drop 5 ias)" and ?b3 = "drop 10 ias"
  have f1: "filter check_intermediate_answer ?b1 = ?b1"
    using ok by (intro filter_True) (auto dest: in_set_takeD)
  have f2: "filter check_intermediate_answer ?b2 = ?b2"
    using ok by (intro filter_True) (auto dest!: in_set_takeD in_set_dropD)
  have f3: "filter check_intermediate_answer ?b3 = ?b3"
    using ok by (intro filter_True) (auto dest: in_set_dropD)
  let ?r1 = "llm world q (join_nl ?b1)"
  let ?r2 = "llm (snd ?r1) q (join_nl ?b2)"
  let ?r3 = "llm (snd ?r2) q (join_nl ?b3)"
  let ?outs = "[fst ?r1, fst ?r2, fst ?r3]"
  let ?s3 = "(snd ?r3, [(q, ?b1), (q, ?b2), (q, ?b3)])"
  have batches: "chain_batch llm q (make_batches ias) (world, []) = (?outs, ?s3)"
    by (simp add: make_batches_12 [OF assms] final_answer_chain_eq f1 f2 f3)
  have "reduce_loop llm q ias (world, []) = reduce_loop llm q ?outs ?s3"
    using len by (simp add: reduce_loop_big batch_size_def batches)
  also have "\<dots> = (?outs, ?s3)"
    by (simp add: reduce_loop_small batch_size_def)
  finally have loop: "reduce_loop llm q ias (world, []) = (?outs, ?s3)" .
  show ?thesis
    unfolding reduce_answers_def loop by (simp add: final_answer_chain_eq Let_def)
qed

text \<open>
  C8: for every list of 12 intermediate answers that all pass the usability check, the
  loop with batch size 5 partitions them in order into exactly 3 batches of sizes 5, 5
  and 2 and calls the model once per batch, on the joined answers of that batch; the 3
  outputs being at most 5, the loop stops and the model is called once more, on the
  joined usable ones of those 3 outputs, and its answer is the final answer: 4 calls in
  all, each on the state of the world the previous one left. In general the batches
  formed in a round partition the usable answers in order, every batch has at most 5
  elements, a round over more than 5 answers replaces them by the answers of one
  invocation per batch, and the loop ends as soon as at most 5 answers remain.
\<close>

theorem hierarchical_reduction:
  "(length ias = 12 \<and> (\<forall>a\<in>set ias. check_intermediate_answer a) \<longrightarrow>
      make_batches ias = [take 5 ias, take 5 (drop 5 ias), drop 10 ias]
      \<and> map length (make_batches ias) = [5, 5, 2]
      \<and> reduce_answers llm q ias world =
          (let r1 = llm world q (join_nl (take 5 ias));
               r2 = llm (snd r1) q (join_nl (take 5 (drop 5 ias)));
               r3 = llm (snd r2) q (join_nl (drop 10 ias));
               outputs = [fst r1, fst r2, fst r3];
               r4 = llm (snd r3) q (join_nl (filter check_intermediate_answer outputs))
           in (fst r4, [ias, outputs],
               [(q, take 5 ias), (q, take 5 (drop 5 ias)), (q, drop 10 ias), (q, outputs)])))
   \<and> concat (make_batches xs) = filter check_intermediate_answer xs
   \<and> (\<forall>b\<in>set (make_batches xs). length b \<le> batch_size)
   \<and> batch_size = 5
   \<and> (batch_size < length xs \<longrightarrow>
        reduce_loop llm q xs (w, calls) =
          reduce_loop llm q (fst (chain_batch llm q (make_batches xs) (w, calls)))
            (snd (chain_batch llm q (make_batches xs) (w, calls))))
   \<and> (length xs \<le> batch_size \<longrightarrow> reduce_loop llm q xs (w, calls) = (xs, (w, calls)))
   \<and> snd (snd (chain_batch llm q (make_batches xs) (w, calls)))
        = calls @ map (Pair q) (make_batches xs)
   \<and> length (fst (chain_batch llm q (make_batches xs) (w, calls))) = length (make_batches xs)
   \<and> final_answer_chain llm q xs (w, calls) =
        (fst (llm w q (join_nl (filter check_intermediate_answer xs))),
         snd (llm w q (join_nl (filter check_intermediate_answer xs))),
         calls @ [(q, xs)])"
proof (intro conjI impI)
  assume a: "length ias = 12 \<and> (\<forall>a\<in>set ias. check_intermediate_answer a)"
  then show b: "make_batches ias = [take 5 ias, take 5 (drop 5 ias), drop 10 ias]"
    by (simp add: make_batches_12)
  show "map length (make_batches ias) = [5, 5, 2]"
    unfolding b using a by simp
  show "reduce_answers llm q ias world =
          (let r1 = llm world q (join_nl (take 5 ias));
               r2 = llm (snd r1) q (join_nl (take 5 (drop 5 ias)));
               r3 = llm (snd r2) q (join_nl (drop 10 ias));
               outputs = [fst r1, fst r2, fst r3];
               r4 = llm (snd r3) q (join_nl (filter check_intermediate_answer outputs))
           in (fst r4, [ias, outputs],
               [(q, take 5 ias), (q, take 5 (drop 5 ias)), (q, drop 10 ias), (q, outputs)]))"
    using a by (intro reduce_answers_12) simp_all
next
  show "concat (make_batches xs) = filter check_intermediate_answer xs"
    using make_batches_partition [of xs] by blast
  show "\<forall>b\<in>set (make_batches xs). length b \<le> batch_size"
    using make_batches_partition [of xs] by blast
  show "batch_size = 5" by (simp add: batch_size_def)
  show "reduce_loop llm q xs (w, calls) =
          reduce_loop llm q (fst (chain_batch llm q (make_batches xs) (w, calls)))
            (snd (chain_batch llm q (make_batches xs) (w, calls)))"
    if "batch_size < length xs"
    using that by (simp add: reduce_loop_big split: prod.splits)
  show "reduce_loop llm q xs (w, calls) = (xs, (w, calls))" if "length xs \<le> batch_size"
    using that by (rule reduce_loop_small)
  show "snd (snd (chain_batch llm q (make_batches xs) (w, calls)))
        = calls @ map (Pair q) (make_batches xs)"
    by (simp add: chain_batch_calls)
  show "length (fst (chain_batch llm q (make_batches xs) (w, calls))) = length (make_batches xs)"
    by (simp add: chain_batch_calls)
  show "final_answer_chain llm q xs (w, calls) =
        (fst (llm w q (join_nl (filter check_intermediate_answer xs))),
         snd (llm w q (join_nl (filter check_intermediate_answer xs))),
         calls @ [(q, xs)])"
    by (rule final_answer_chain_eq)
qed

theorem hierarchical_reduction_witness:
  "length twelve_answers = 12
   \<and> make_batches twelve_answers =
       [[''a1'', ''a2'', ''a3'', ''a4'', ''a5''], [''a6'', ''a7'', ''a8'', ''a9'', ''a10''],
        [''a11'', ''a12'']]
   \<and> reduce_answers echo_llm ''q'' twelve_answers 0 =
       (join_nl [join_nl [''a1'', ''a2'', ''a3'', ''a4'', ''a5''],
                 join_nl [''a6'', ''a7'', ''a8'', ''a9'', ''a10''],
                 join_nl [''a11'', ''a12'']],
        [twelve_answers,
         [join_nl [''a1'', ''a2'', ''a3'', ''a4'', ''a5''],
          join_nl [''a6'', ''a7'', ''a8'', ''a9'', ''a10''],
          join_nl [''a11'', ''a12'']]],
        [(''q'', [''a1'', ''a2'', ''a3'', ''a4'', ''a5'']),
         (''q'', [''a6'', ''a7'', ''a8'', ''a9'', ''a10'']),
         (''q'', [''a11'', ''a12'']),
         (''q'', [join_nl [''a1'', ''a2'', ''a3'', ''a4'', ''a5''],
                  join_nl [''a6'', ''a7'', ''a8'', ''a9'', ''a10''],
                  join_nl [''a11'', ''a12'']])])"
proof -
  have len: "length twelve_answers = 12" by (simp add: twelve_answers_def)
  have ok: "\<forall>a\<in>set twelve_answers. check_intermediate_answer a"
    by (simp add: twelve_answers_def check_intermediate_answer_def re_search_IRRELEVANT_def
        irrelevant_at_def startswith_def)
  have usable: "filter check_intermediate_answer
      [join_nl [''a1'', ''a2'', ''a3'', ''a4'', ''a5''],
       join_nl [''a6'', ''a7'', ''a8'', ''a9'', ''a10''],
       join_nl [''a11'', ''a12'']]
    = [join_nl [''a1'', ''a2'', ''a3'', ''a4'', ''a5''],
       join_nl [''a6'', ''a7'', ''a8'', ''a9'', ''a10''],
       join_nl [''a11'', ''a12'']]"
    by code_simp
  have parts: "take 5 twelve_answers = [''a1'', ''a2'', ''a3'', ''a4'', ''a5'']"
    "take 5 (drop 5 twelve_answers) = [''a6'', ''a7'', ''a8'', ''a9'', ''a10'']"
    "drop 10 twelve_answers = [''a11'', ''a12'']"
    by (simp_all add: twelve_answers_def)
  from hierarchical_reduction [of twelve_answers echo_llm "''q''" 0 "[]" 0 "[]"] len ok
  have b: "make_batches twelve_answers
      = [take 5 twelve_answers, take 5 (drop 5 twelve_answers), drop 10 twelve_answers]"
    and r: "reduce_answers echo_llm ''q'' twelve_answers 0 =
          (let r1 = echo_llm 0 ''q'' (join_nl (take 5 twelve_answers));
               r2 = echo_llm (snd r1) ''q'' (join_nl (take 5 (drop 5 twelve_answers)));
               r3 = echo_llm (snd r2) ''q'' (join_nl (drop 10 twelve_answers));
               outputs = [fst r1, fst r2, fst r3];
               r4 = echo_llm (snd r3) ''q'' (join_nl (filter check_intermediate_answer outputs))
           in (fst r4, [twelve_answers, outputs],
               [(''q'', take 5 twelve_answers), (''q'', take 5 (drop 5 twelve_answers)),
                (''q'', drop 10 twelve_answers), (''q'', outputs)]))"
    by blast+
  show ?thesis
    unfolding r b parts using len
    by (simp only: Let_def echo_llm_def fst_conv snd_conv usable)
qed

section \<open>The cleanup before a recursive summary\<close>

lemma rstrip_split: "\<exists>ws. l = rstrip l @ ws \<and> (\<forall>c\<in>set ws. py_isspace c)"
proof -
  have "rev l = takeWhile py_isspace (rev l) @ dropWhile py_isspace (rev l)" by simp
  then have "l = rev (dropWhile py_isspace (rev l)) @ rev (takeWhile py_isspace (rev l))"
    by (metis rev_append rev_rev_ident)
  moreover have "\<forall>c\<in>set (rev (takeWhile py_isspace (rev l))). py_isspace c"
    by (auto dest: set_takeWhileD)
  ultimately show ?thesis unfolding rstrip_def by blast
qed

lemma rstrip_append_space:
  assumes "\<forall>c\<in>set ws. py_isspace c"
  shows "rstrip (a @ ws) = rstrip a"
proof -
  have "dropWhile py_isspace (rev ws @ rev a) = dropWhile py_isspace (rev a)"
    by (rule dropWhile_append2) (use assms in simp)
  then show ?thesis by (simp add: rstrip_def)
qed

lemma rstrip_idem: "rstrip (rstrip l) = rstrip l"
proof (cases "rstrip l = []")
  case True
  then show ?thesis by (simp add: rstrip_def)
next
  case False
  then have "dropWhile py_isspace (rev l) \<noteq> []" by (simp add: rstrip_def)
  then have "\<not> py_isspace (hd (dropWhile py_isspace (rev l)))" by (rule hd_dropWhile)
  then have "dropWhile py_isspace (dropWhile py_isspace (rev l)) = dropWhile py_isspace (rev l)"
    by (cases "dropWhile py_isspace (rev l)") auto
  then show ?thesis by (simp add: rstrip_def)
qed

lemma set_rstrip: "set (rstrip l) \<subseteq> set l"
  by (auto simp: rstrip_def dest: set_dropWhileD)

lemma strip_rstrip: "strip (rstrip l) = strip l"
proof (cases "\<forall>c\<in>set l. py_isspace c")
  case True
  then have "\<forall>c\<in>set (rstrip l). py_isspace c" using set_rstrip [of l] by blast
  then have "strip (rstrip l) = []" by (simp only: strip_empty_iff)
  moreover have "strip l = []" using True by (simp only: strip_empty_iff)
  ultimately show ?thesis by simp
next
  case False
  obtain ws where ws: "l = rstrip l @ ws" "\<forall>c\<in>set ws. py_isspace c"
    using rstrip_split by blast
  from False ws obtain x where x: "x \<in> set (rstrip l)" "\<not> py_isspace x"
    by (metis Un_iff set_append)
  have "lstrip l = lstrip (rstrip l @ ws)" using ws(1) by simp
  also have "\<dots> = lstrip (rstrip l) @ ws"
    unfolding lstrip_def using x by (rule dropWhile_append1)
  finally have "rstrip (lstrip l) = rstrip (lstrip (rstrip l))"
    using ws(2) by (simp add: rstrip_append_space)
  then show ?thesis by (simp add: strip_def)
qed

text \<open>The chunk marker, as the regular expression reads.\<close>

lemma chunk_marker_at_iff:
  "chunk_marker_at s \<longleftrightarrow>
     (\<exists>ds d r. s = ''- Chunk '' @ ds @ CHR ''/'' # d # r \<and> ds \<noteq> []
        \<and> (\<forall>c\<in>set ds. re_digit c) \<and> re_digit d)"
proof
  assume m: "chunk_marker_at s"
  then obtain post where "s = ''- Chunk '' @ post"
    unfolding chunk_marker_at_def startswith_iff by blast
  then have s: "s = ''- Chunk '' @ drop 8 s" by simp
  let ?rest = "drop 8 s"
  from m obtain d r where dw: "dropWhile re_digit ?rest = CHR ''/'' # d # r" "re_digit d"
    and tw: "takeWhile re_digit ?rest \<noteq> []"
    unfolding chunk_marker_at_def by (auto simp: Let_def split: list.splits)
  have "takeWhile re_digit ?rest @ dropWhile re_digit ?rest = ?rest"
    by (rule takeWhile_dropWhile_id)
  then have "?rest = takeWhile re_digit ?rest @ CHR ''/'' # d # r"
    unfolding dw(1) by (rule sym)
  then have "''- Chunk '' @ ?rest = ''- Chunk '' @ takeWhile re_digit ?rest @ CHR ''/'' # d # r"
    by (rule arg_cong)
  with s have "s = ''- Chunk '' @ takeWhile re_digit ?rest @ CHR ''/'' # d # r"
    by (rule trans)
  moreover have "\<forall>c\<in>set (takeWhile re_digit ?rest). re_digit c" by (auto dest: set_takeWhileD)
  ultimately show "\<exists>ds d r. s = ''- Chunk '' @ ds @ CHR ''/'' # d # r \<and> ds \<noteq> []
        \<and> (\<forall>c\<in>set ds. re_digit c) \<and> re_digit d"
    using tw dw(2) by blast
next
  assume "\<exists>ds d r. s = ''- Chunk '' @ ds @ CHR ''/'' # d # r \<and> ds \<noteq> []
        \<and> (\<forall>c\<in>set ds. re_digit c) \<and> re_digit d"
  then obtain ds d r where s: "s = ''- Chunk '' @ ds @ CHR ''/'' # d # r" and ds: "ds \<noteq> []"
    "\<forall>c\<in>set ds. re_digit c" and d: "re_digit d" by blast
  have nd: "\<not> re_digit CHR ''/''" by (simp add: re_digit_def)
  have rest: "drop 8 s = ds @ CHR ''/'' # d # r" using s by simp
  have "takeWhile re_digit (ds @ CHR ''/'' # d # r) = ds"
    using ds(2) nd by (simp add: takeWhile_append2)
  moreover have "dropWhile re_digit (ds @ CHR ''/'' # d # r) = CHR ''/'' # d # r"
    using ds(2) nd by (simp add: dropWhile_append2)
  moreover have "startswith s ''- Chunk ''" using s by (simp add: startswith_def)
  ultimately show "chunk_marker_at s"
    using ds(1) d unfolding chunk_marker_at_def rest by simp
qed

lemma chunk_marker_at_append:
  assumes "chunk_marker_at p"
  shows "chunk_marker_at (p @ q)"
proof -
  from assms obtain ds d r where p: "p = ''- Chunk '' @ ds @ CHR ''/'' # d # r"
    and ds: "ds \<noteq> []" "\<forall>c\<in>set ds. re_digit c" and d: "re_digit d"
    unfolding chunk_marker_at_iff by blast
  have "p @ q = ''- Chunk '' @ ds @ CHR ''/'' # d # (r @ q)" unfolding p by simp
  then show ?thesis unfolding chunk_marker_at_iff using ds d by blast
qed

lemma re_search_chunk_append: "re_search_chunk p \<Longrightarrow> re_search_chunk (p @ q)"
proof (induction p)
  case Nil
  then show ?case by simp
next
  case (Cons c p)
  then show ?case using chunk_marker_at_append [of "c # p" q] by auto
qed

lemma is_marker_rstrip: "is_marker (rstrip l) \<Longrightarrow> is_marker l"
proof -
  assume m: "is_marker (rstrip l)"
  obtain ws where ws: "l = rstrip l @ ws" using rstrip_split by blast
  have "re_search_chunk (rstrip l) \<Longrightarrow> re_search_chunk l"
    using re_search_chunk_append [of "rstrip l" ws] ws by simp
  then show ?thesis using m unfolding is_marker_def strip_rstrip by blast
qed

text \<open>Splitting at newlines and joining with newlines.\<close>

lemma split_nl_not_empty: "split_nl s \<noteq> []"
  by (induction s) (auto split: list.splits)

lemma split_nl_no_newline: "l \<in> set (split_nl s) \<Longrightarrow> newline \<notin> set l"
proof (induction s arbitrary: l)
  case Nil
  then show ?case by simp
next
  case (Cons c cs)
  show ?case
  proof (cases "c = newline")
    case True
    then show ?thesis using Cons by auto
  next
    case False
    obtain h t where r: "split_nl cs = h # t"
      using split_nl_not_empty [of cs] by (cases "split_nl cs") auto
    from Cons.prems False r have "l = c # h \<or> l \<in> set t" by simp
    then show ?thesis
    proof
      assume "l = c # h"
      then show ?thesis using False Cons.IH [of h] r by auto
    next
      assume "l \<in> set t"
      then have "l \<in> set (split_nl cs)" using r by simp
      then show ?thesis by (rule Cons.IH)
    qed
  qed
qed

lemma split_nl_line: "newline \<notin> set l \<Longrightarrow> split_nl l = [l]"
  by (induction l) auto

lemma split_nl_append: "newline \<notin> set l \<Longrightarrow> split_nl (l @ newline # rest) = l # split_nl rest"
  by (induction l) auto

lemma split_nl_join_nl:
  "ls \<noteq> [] \<Longrightarrow> \<forall>l\<in>set ls. newline \<notin> set l \<Longrightarrow> split_nl (join_nl ls) = ls"
proof (induction ls rule: join_nl.induct)
  case 1
  then show ?case by simp
next
  case (2 x)
  then show ?case by (simp add: split_nl_line)
next
  case (3 x y ys)
  then show ?case by (simp add: split_nl_append)
qed

lemma drop_none_replicate: "drop_none (replicate n None) = []"
  by (induction n) auto

lemma drop_none_map_Some: "drop_none (map Some xs) = xs"
  by (induction xs) auto

text \<open>The loop leaves marker-free lines alone, and every line it leaves is free of markers.\<close>

lemma mark_lines_no_marker:
  "\<forall>l\<in>set ls. \<not> is_marker l \<Longrightarrow> mark_lines ls = map Some ls"
  by (induction ls) (auto simp: is_marker_def)

lemma mark_lines_kept:
  "l \<in> set (drop_none (mark_lines ls)) \<Longrightarrow> \<not> is_marker l \<and> l \<in> set ls"
proof (induction ls)
  case Nil
  then show ?case by simp
next
  case (Cons a ls)
  consider (line) "strip a = ''- ---'' \<or> re_search_chunk a"
    | (block) "\<not> (strip a = ''- ---'' \<or> re_search_chunk a)"
        "startswith (strip a) ''- BEFORE RECURSION #''"
    | (keep) "\<not> is_marker a"
    unfolding is_marker_def by blast
  then show ?case
  proof cases
    case line
    then have "mark_lines (a # ls) = None # mark_lines ls" by auto
    then show ?thesis using Cons by simp
  next
    case block
    then have "mark_lines (a # ls) = replicate (length (a # ls)) None" by simp
    then show ?thesis using Cons.prems by (simp only: drop_none_replicate) simp
  next
    case keep
    then have "mark_lines (a # ls) = Some a # mark_lines ls"
      unfolding is_marker_def by simp
    then show ?thesis using Cons keep by auto
  qed
qed

lemma strip_markers_empty: "strip_markers [] = Inr []"
  by code_simp

text \<open>
  When no line of the input consists of whitespace only, the cleaned text is a fixed
  point of the cleanup.
\<close>

lemma strip_markers_fixed_without_blank_lines:
  assumes run: "strip_markers x = Inr y"
    and lines: "\<forall>l\<in>set (split_nl x). l \<noteq> [] \<longrightarrow> (\<exists>c\<in>set l. \<not> py_isspace c)"
  shows "strip_markers y = Inr y"
proof -
  let ?K = "filter (\<lambda>s. s \<noteq> []) (drop_none (mark_lines (split_nl x)))"
  let ?L = "map rstrip ?K"
  have y: "y = join_nl ?L"
    and a1: "\<not> contains y ''- ---''" and a2: "\<not> contains y ''- Chunk ''"
    and a3: "\<not> contains y ''- BEFORE RECURSION # ''"
    using run by (auto simp: strip_markers_def Let_def split: if_splits)
  have K: "k \<noteq> [] \<and> \<not> is_marker k \<and> k \<in> set (split_nl x)" if "k \<in> set ?K" for k
    using that mark_lines_kept [of k "split_nl x"] by simp
  have L: "newline \<notin> set l \<and> \<not> is_marker l \<and> l \<noteq> [] \<and> rstrip l = l" if "l \<in> set ?L" for l
  proof -
    from that obtain k where k: "k \<in> set ?K" "l = rstrip k" by auto
    note kk = K [OF k(1)]
    have "newline \<notin> set k" using kk split_nl_no_newline by blast
    then have "newline \<notin> set l" using set_rstrip [of k] k(2) by blast
    moreover have "\<not> is_marker l" using kk is_marker_rstrip k(2) by blast
    moreover have "l \<noteq> []" using kk lines k(2) by (simp add: rstrip_empty_iff)
    moreover have "rstrip l = l" using k(2) by (simp add: rstrip_idem)
    ultimately show ?thesis by blast
  qed
  show ?thesis
  proof (cases "?L = []")
    case True
    then have "y = []" using y by simp
    then show ?thesis by (simp add: strip_markers_empty)
  next
    case False
    have sp: "split_nl y = ?L"
      unfolding y using False L by (intro split_nl_join_nl) blast+
    have ml: "mark_lines ?L = map Some ?L"
      using L by (intro mark_lines_no_marker) blast
    have kept: "drop_none (mark_lines (split_nl y)) = ?L"
      by (simp only: sp ml drop_none_map_Some)
    have f: "filter (\<lambda>s. s \<noteq> []) ?L = ?L" using L by (intro filter_True) blast
    have m: "map rstrip ?L = ?L" using L by (intro map_idI) blast
    have "join_nl (map rstrip (filter (\<lambda>s. s \<noteq> [])
        (drop_none (mark_lines (split_nl y))))) = y"
      by (simp only: kept f m y [symmetric])
    then show ?thesis
      using a1 a2 a3 unfolding strip_markers_def Let_def by simp
  qed
qed

text \<open>A substring without newline of a joined text lies within one of the lines.\<close>

lemma contains_iff_sublist: "contains s sub \<longleftrightarrow> sublist sub s"
proof (induction s)
  case Nil
  then show ?case by simp
next
  case (Cons c cs)
  have "startswith (c # cs) sub \<longleftrightarrow> prefix sub (c # cs)"
    unfolding startswith_iff prefix_def ..
  then show ?case using Cons by (simp add: sublist_Cons_right)
qed

lemma sublist_across_newline:
  assumes "sub \<noteq> []" and "newline \<notin> set sub"
  shows "sublist sub (x @ newline # r) \<longleftrightarrow> sublist sub x \<or> sublist sub r"
proof
  assume "sublist sub (x @ newline # r)"
  then consider "sublist sub x" | "sublist sub (newline # r)"
    | xs1 xs2 where "sub = xs1 @ xs2" "suffix xs1 x" "prefix xs2 (newline # r)"
    unfolding sublist_append by blast
  then show "sublist sub x \<or> sublist sub r"
  proof cases
    case 1
    then show ?thesis ..
  next
    case 2
    then have "prefix sub (newline # r) \<or> sublist sub r" by (simp add: sublist_Cons_right)
    moreover have "\<not> prefix sub (newline # r)"
      using assms by (cases sub) (auto simp: prefix_Cons)
    ultimately show ?thesis by blast
  next
    case 3
    have "xs2 = []"
    proof (rule ccontr)
      assume "xs2 \<noteq> []"
      then have "hd xs2 = newline" using 3(3) by (cases xs2) auto
      then have "newline \<in> set xs2" using \<open>xs2 \<noteq> []\<close> by (metis list.set_sel(1))
      then show False using assms(2) 3(1) by simp
    qed
    then have "suffix sub x" using 3 by simp
    then show ?thesis by (auto dest: suffix_imp_sublist)
  qed
next
  assume "sublist sub x \<or> sublist sub r"
  then show "sublist sub (x @ newline # r)"
    by (auto simp: sublist_append sublist_Cons_right)
qed

lemma contains_join_nl:
  assumes "sub \<noteq> []" and "newline \<notin> set sub"
  shows "contains (join_nl ls) sub \<longleftrightarrow> (\<exists>l\<in>set ls. contains l sub)"
  unfolding contains_iff_sublist
proof (induction ls rule: join_nl.induct)
  case 1
  then show ?case using assms by simp
next
  case (2 x)
  then show ?case by simp
next
  case (3 x y ys)
  then show ?case using sublist_across_newline [OF assms] by simp
qed

text \<open>
  The cleanup of a text whose lines are free of markers and of trailing whitespace: it
  removes the empty lines and nothing else, and the assertions still hold afterwards.
\<close>

lemma strip_markers_clean_lines:
  assumes clean: "\<forall>l\<in>set ls. newline \<notin> set l \<and> \<not> is_marker l \<and> rstrip l = l"
    and a1: "\<not> contains (join_nl ls) ''- ---''"
    and a2: "\<not> contains (join_nl ls) ''- Chunk ''"
    and a3: "\<not> contains (join_nl ls) ''- BEFORE RECURSION # ''"
  shows "strip_markers (join_nl ls) = Inr (join_nl (filter (\<lambda>s. s \<noteq> []) ls))
    \<and> \<not> contains (join_nl (filter (\<lambda>s. s \<noteq> []) ls)) ''- ---''
    \<and> \<not> contains (join_nl (filter (\<lambda>s. s \<noteq> []) ls)) ''- Chunk ''
    \<and> \<not> contains (join_nl (filter (\<lambda>s. s \<noteq> []) ls)) ''- BEFORE RECURSION # ''"
proof -
  let ?F = "filter (\<lambda>s. s \<noteq> []) ls"
  have nl: "newline \<notin> set ''- ---''" "newline \<notin> set ''- Chunk ''"
    "newline \<notin> set ''- BEFORE RECURSION # ''"
    by (simp_all add: newline_def)
  have b1: "\<not> contains (join_nl ?F) ''- ---''"
    using a1 unfolding contains_join_nl [OF _ nl(1), simplified] by auto
  have b2: "\<not> contains (join_nl ?F) ''- Chunk ''"
    using a2 unfolding contains_join_nl [OF _ nl(2), simplified] by auto
  have b3: "\<not> contains (join_nl ?F) ''- BEFORE RECURSION # ''"
    using a3 unfolding contains_join_nl [OF _ nl(3), simplified] by auto
  have "join_nl (map rstrip (filter (\<lambda>s. s \<noteq> [])
      (drop_none (mark_lines (split_nl (join_nl ls)))))) = join_nl ?F"
  proof (cases "ls = []")
    case True
    then show ?thesis by (simp add: is_marker_def)
  next
    case False
    have sp: "split_nl (join_nl ls) = ls"
      using False clean by (intro split_nl_join_nl) blast+
    have ml: "mark_lines ls = map Some ls"
      using clean by (intro mark_lines_no_marker) blast
    have kept: "drop_none (mark_lines (split_nl (join_nl ls))) = ls"
      by (simp only: sp ml drop_none_map_Some)
    have m: "map rstrip ?F = ?F" using clean by (intro map_idI) simp
    show ?thesis by (simp only: kept m)
  qed
  then have "strip_markers (join_nl ls) = Inr (join_nl ?F)"
    using b1 b2 b3 unfolding strip_markers_def Let_def by simp
  then show ?thesis using b1 b2 b3 by blast
qed

text \<open>
  C4 (as amended): let the cleanup succeed on \<open>x\<close> with result \<open>y\<close>. Applying it again
  to \<open>y\<close> yields \<open>y\<close> exactly when \<open>y\<close> is empty or has no empty line; this is the case
  whenever no line of \<open>x\<close> consists of whitespace only. In every case the second
  application succeeds, its result is \<open>y\<close> without its empty lines, and that result is a
  fixed point: from the second application on, the text no longer changes.
\<close>

theorem strip_markers_idempotence:
  assumes run: "strip_markers x = Inr y"
  shows "(strip_markers y = Inr y \<longleftrightarrow> y = [] \<or> [] \<notin> set (split_nl y))
    \<and> ((\<forall>l\<in>set (split_nl x). l \<noteq> [] \<longrightarrow> (\<exists>c\<in>set l. \<not> py_isspace c))
          \<longrightarrow> strip_markers y = Inr y)
    \<and> (\<exists>z. strip_markers y = Inr z \<and> strip_markers z = Inr z)
    \<and> strip_markers y = Inr (join_nl (filter (\<lambda>s. s \<noteq> []) (split_nl y)))"
proof -
  let ?K = "filter (\<lambda>s. s \<noteq> []) (drop_none (mark_lines (split_nl x)))"
  let ?L = "map rstrip ?K"
  let ?F = "filter (\<lambda>s. s \<noteq> []) ?L"
  have y: "y = join_nl ?L"
    and a1: "\<not> contains (join_nl ?L) ''- ---''"
    and a2: "\<not> contains (join_nl ?L) ''- Chunk ''"
    and a3: "\<not> contains (join_nl ?L) ''- BEFORE RECURSION # ''"
    using run by (auto simp: strip_markers_def Let_def split: if_splits)
  have clean: "\<forall>l\<in>set ?L. newline \<notin> set l \<and> \<not> is_marker l \<and> rstrip l = l"
  proof
    fix l assume "l \<in> set ?L"
    then obtain k where k: "k \<in> set (drop_none (mark_lines (split_nl x)))" "l = rstrip k"
      by auto
    from mark_lines_kept [OF k(1)] have kk: "\<not> is_marker k" "k \<in> set (split_nl x)" by blast+
    have "newline \<notin> set k" using kk(2) by (rule split_nl_no_newline)
    then have "newline \<notin> set l" using set_rstrip [of k] k(2) by blast
    moreover have "\<not> is_marker l" using kk(1) is_marker_rstrip k(2) by blast
    moreover have "rstrip l = l" using k(2) by (simp add: rstrip_idem)
    ultimately show "newline \<notin> set l \<and> \<not> is_marker l \<and> rstrip l = l" by blast
  qed
  note second = strip_markers_clean_lines [OF clean a1 a2 a3]
  then have sy: "strip_markers y = Inr (join_nl ?F)" unfolding y by blast
  have "set ?F \<subseteq> set ?L" by (rule filter_is_subset)
  then have cleanF: "\<forall>l\<in>set ?F. newline \<notin> set l \<and> \<not> is_marker l \<and> rstrip l = l"
    using clean by blast
  have "strip_markers (join_nl ?F) = Inr (join_nl (filter (\<lambda>s. s \<noteq> []) ?F))"
    using strip_markers_clean_lines [OF cleanF] second by blast
  moreover have "filter (\<lambda>s. s \<noteq> []) ?F = ?F" by simp
  ultimately have third: "strip_markers (join_nl ?F) = Inr (join_nl ?F)" by (simp only:)
  have nlL: "\<forall>l\<in>set ?L. newline \<notin> set l" using clean by blast
  have nlF: "\<forall>l\<in>set ?F. newline \<notin> set l" using cleanF by blast
  have fixed: "strip_markers y = Inr y \<longleftrightarrow> y = [] \<or> [] \<notin> set (split_nl y)"
  proof
    assume "strip_markers y = Inr y"
    then have eq: "join_nl ?F = join_nl ?L" using sy y by simp
    show "y = [] \<or> [] \<notin> set (split_nl y)"
    proof (cases "y = []")
      case True
      then show ?thesis ..
    next
      case False
      then have L: "?L \<noteq> []" and F: "?F \<noteq> []" using y eq by auto
      have "?F = split_nl (join_nl ?F)" using split_nl_join_nl [OF F nlF] by (rule sym)
      also have "\<dots> = split_nl (join_nl ?L)" by (simp only: eq)
      also have "\<dots> = ?L" by (rule split_nl_join_nl [OF L nlL])
      finally have FL: "?F = ?L" .
      have "[] \<notin> set ?F" by simp
      then have "[] \<notin> set ?L" unfolding FL .
      moreover have "split_nl y = ?L" unfolding y by (rule split_nl_join_nl [OF L nlL])
      ultimately show ?thesis by simp
    qed
  next
    assume c: "y = [] \<or> [] \<notin> set (split_nl y)"
    show "strip_markers y = Inr y"
    proof (cases "y = []")
      case True
      then show ?thesis by (simp add: strip_markers_empty)
    next
      case False
      then have L: "?L \<noteq> []" using y by auto
      have "split_nl y = ?L" unfolding y by (rule split_nl_join_nl [OF L nlL])
      then have "[] \<notin> set ?L" using c False by (simp only:) blast
      then have "\<forall>l\<in>set ?L. l \<noteq> []" by blast
      then have "?F = ?L" by (rule filter_True)
      then show ?thesis using sy y by simp
    qed
  qed
  have "\<exists>z. strip_markers y = Inr z \<and> strip_markers z = Inr z"
    using sy third by blast
  moreover have "(\<forall>l\<in>set (split_nl x). l \<noteq> [] \<longrightarrow> (\<exists>c\<in>set l. \<not> py_isspace c))
          \<longrightarrow> strip_markers y = Inr y"
    using strip_markers_fixed_without_blank_lines [OF run] by blast
  moreover have "strip_markers y = Inr (join_nl (filter (\<lambda>s. s \<noteq> []) (split_nl y)))"
  proof (cases "?L = []")
    case True
    then have "y = []" and "?F = []" using y by simp_all
    then show ?thesis using sy by simp
  next
    case False
    have "split_nl y = ?L" unfolding y by (rule split_nl_join_nl [OF False nlL])
    then show ?thesis using sy by (simp only:)
  qed
  ultimately show ?thesis using fixed by blast
qed

theorem strip_markers_idempotence_witness:
  "strip_markers marked_summary = Inr (''- point one'' @ [newline] @ ''- point two'')
   \<and> strip_markers (''- point one'' @ [newline] @ ''- point two'')
       = Inr (''- point one'' @ [newline] @ ''- point two'')"
proof -
  have run: "strip_markers marked_summary = Inr (''- point one'' @ [newline] @ ''- point two'')"
    by code_simp
  have lines: "\<forall>l\<in>set (split_nl marked_summary). l \<noteq> [] \<longrightarrow> (\<exists>c\<in>set l. \<not> py_isspace c)"
    by code_simp
  from strip_markers_idempotence [OF run] lines run show ?thesis by blast
qed

text \<open>
  The claim as first stated fails on a text with a whitespace-only line: that line is
  kept, trimmed to an empty line by \<open>rstrip\<close>, and only the second application removes it.
\<close>

theorem strip_markers_blank_line_counterexample:
  "strip_markers (''a'' @ [newline] @ '' '' @ [newline] @ ''b'')
     = Inr (''a'' @ [newline, newline] @ ''b'')
   \<and> strip_markers (''a'' @ [newline, newline] @ ''b'') = Inr (''a'' @ [newline] @ ''b'')
   \<and> ''a'' @ [newline, newline] @ ''b'' \<noteq> ''a'' @ [newline] @ ''b''"
  by code_simp

end
